theory Spec2Isabelle
  imports Complex_Main "HOL-Library.Multiset"
begin

section \<open>Data model of TetrisGame.tsx\<close>

text \<open>
  The engine lives in one React component. Its hooks (\<open>useState\<close>, \<open>useRef\<close>) are the
  fields of one state record, and every callback of the component is a function from
  the state before the callback to the state after the render that follows it.

  React queues the setter calls of a callback and runs an updater function passed to a
  setter at the next render, after the callback has returned. Two things follow, and
  the model has both. A local that an updater assigns (\<open>linesCleared\<close>,
  \<open>triggeredGameOver\<close> in \<open>finalizeLock\<close>) still has the value of its declaration when
  the callback reads it. And the setters that an updater calls itself (those inside the
  queue updater of \<open>spawnPiece\<close>) come after every setter the callback calls. Setters
  of different hooks do not interfere, so only the order of the calls on one hook
  matters.

  JavaScript numbers that only ever hold integers are \<open>int\<close>. A JavaScript exception
  (reading a property of \<open>undefined\<close>) is the value \<open>Inl TypeError\<close>.
\<close>

datatype TetrominoType = TetI | TetJ | TetL | TetO | TetS | TetT | TetZ

datatype GameStatus = ready | playing | paused | gameover

datatype error = TypeError

record Position =
  pos_x :: int
  pos_y :: int

record ActivePiece =
  ptype :: TetrominoType
  rotation :: int
  position :: Position

record Cell =
  cell_type :: TetrominoType
  cell_ghost :: "bool option"
  cell_fading :: "bool option"

text \<open>
  One element of a board row. \<open>Empty\<close> is \<open>null\<close> (or \<open>undefined\<close>, which the code
  cannot tell from \<open>null\<close>: both are falsy); \<open>Hole\<close> is a missing element of a sparse
  array, which only an out-of-range write creates.
\<close>

datatype slot = Hole | Empty | Filled Cell

type_synonym board = "slot list list"

record GameStats =
  score :: int
  level :: int
  lines :: int
  combo :: int
  maxCombo :: int
  cleared :: "int list"
  tetrisCount :: int
  hardDrops :: int
  pieces :: int
  playTime :: int

definition BOARD_WIDTH :: int where "BOARD_WIDTH = 10"
definition BOARD_HEIGHT :: int where "BOARD_HEIGHT = 20"
definition LINES_PER_LEVEL :: int where "LINES_PER_LEVEL = 10"
definition COMBO_BONUS :: int where "COMBO_BONUS = 50"
definition DROP_SCORE :: int where "DROP_SCORE = 2"

definition lineScores :: "int list" where
  "lineScores = [0, 100, 300, 500, 800]"

subsection \<open>JavaScript primitives\<close>

text \<open>\<open>xs[i]\<close>: \<open>None\<close> is \<open>undefined\<close>, the value of a read outside the array.\<close>

definition arr_get :: "'a list \<Rightarrow> int \<Rightarrow> 'a option" where
  "arr_get xs i = (if 0 \<le> i \<and> i < int (length xs) then Some (xs ! nat i) else None)"

text \<open>
  \<open>row[i] = v\<close>: a write past the end extends the array and leaves holes, a write at a
  negative index sets a property and no element.
\<close>

definition arr_set :: "slot list \<Rightarrow> int \<Rightarrow> slot \<Rightarrow> slot list" where
  "arr_set row i v =
     (if i < 0 then row
      else if i < int (length row) then row[nat i := v]
      else row @ replicate (nat i - length row) Hole @ [v])"

text \<open>\<open>[...row]\<close>: the copy has \<open>undefined\<close> where the source has a hole.\<close>

definition spread :: "slot list \<Rightarrow> slot list" where
  "spread row = map (\<lambda>s. if s = Hole then Empty else s) row"

text \<open>Truthiness of a row element: only a cell object is truthy.\<close>

fun truthy :: "slot \<Rightarrow> bool" where
  "truthy (Filled c) = True"
| "truthy Empty = False"
| "truthy Hole = False"

text \<open>
  \<open>a % b\<close> on integers: the remainder has the sign of the dividend. The divisor is always
  the length of a rotation table, 1 or 4.
\<close>

definition js_rem :: "int \<Rightarrow> int \<Rightarrow> int" where
  "js_rem a b = sgn a * (\<bar>a\<bar> mod \<bar>b\<bar>)"

subsection \<open>Shape table\<close>

definition TETROMINOES :: "TetrominoType \<Rightarrow> nat list list list" where
  "TETROMINOES t = (case t of
     TetI \<Rightarrow> [[[0,0,0,0],[1,1,1,1],[0,0,0,0],[0,0,0,0]],
              [[0,0,1,0],[0,0,1,0],[0,0,1,0],[0,0,1,0]],
              [[0,0,0,0],[0,0,0,0],[1,1,1,1],[0,0,0,0]],
              [[0,1,0,0],[0,1,0,0],[0,1,0,0],[0,1,0,0]]]
   | TetJ \<Rightarrow> [[[1,0,0],[1,1,1],[0,0,0]],
              [[0,1,1],[0,1,0],[0,1,0]],
              [[0,0,0],[1,1,1],[0,0,1]],
              [[0,1,0],[0,1,0],[1,1,0]]]
   | TetL \<Rightarrow> [[[0,0,1],[1,1,1],[0,0,0]],
              [[0,1,0],[0,1,0],[0,1,1]],
              [[0,0,0],[1,1,1],[1,0,0]],
              [[1,1,0],[0,1,0],[0,1,0]]]
   | TetO \<Rightarrow> [[[0,1,1,0],[0,1,1,0],[0,0,0,0],[0,0,0,0]]]
   | TetS \<Rightarrow> [[[0,1,1],[1,1,0],[0,0,0]],
              [[0,1,0],[0,1,1],[0,0,1]],
              [[0,0,0],[0,1,1],[1,1,0]],
              [[1,0,0],[1,1,0],[0,1,0]]]
   | TetT \<Rightarrow> [[[0,1,0],[1,1,1],[0,0,0]],
              [[0,1,0],[0,1,1],[0,1,0]],
              [[0,0,0],[1,1,1],[0,1,0]],
              [[0,1,0],[1,1,0],[0,1,0]]]
   | TetZ \<Rightarrow> [[[1,1,0],[0,1,1],[0,0,0]],
              [[0,0,1],[0,1,1],[0,1,0]],
              [[0,0,0],[1,1,0],[0,1,1]],
              [[0,1,0],[1,1,0],[1,0,0]]])"

definition ALL_TETROMINOES :: "TetrominoType list" where
  "ALL_TETROMINOES = [TetI, TetJ, TetL, TetO, TetS, TetT, TetZ]"

definition getRotations :: "TetrominoType \<Rightarrow> nat list list list" where
  "getRotations t = TETROMINOES t"

text \<open>
  The nested loops \<open>for y ... for x ... if (!matrix[y][x]) continue\<close> visit the occupied
  cells of a matrix row by row, left to right; \<open>occupied\<close> lists them as \<open>(x, y)\<close> in
  that order.
\<close>

fun row_cells :: "int \<Rightarrow> int \<Rightarrow> nat list \<Rightarrow> (int \<times> int) list" where
  "row_cells y x [] = []"
| "row_cells y x (v # vs) = (if v \<noteq> 0 then [(x, y)] else []) @ row_cells y (x + 1) vs"

fun matrix_cells :: "int \<Rightarrow> nat list list \<Rightarrow> (int \<times> int) list" where
  "matrix_cells y [] = []"
| "matrix_cells y (r # rs) = row_cells y 0 r @ matrix_cells (y + 1) rs"

definition occupied :: "nat list list \<Rightarrow> (int \<times> int) list" where
  "occupied matrix = matrix_cells 0 matrix"

subsection \<open>Board model\<close>

definition createEmptyBoard :: board where
  "createEmptyBoard = replicate (nat BOARD_HEIGHT) (replicate (nat BOARD_WIDTH) Empty)"

text \<open>The body of the loops of \<open>canPlace\<close>, with its three early returns.\<close>

fun canPlace_cells :: "board \<Rightarrow> ActivePiece \<Rightarrow> Position \<Rightarrow> (int \<times> int) list \<Rightarrow> error + bool" where
  "canPlace_cells b piece offset [] = Inr True"
| "canPlace_cells b piece offset ((x, y) # cs) =
     (let boardX = pos_x (position piece) + x + pos_x offset;
          boardY = pos_y (position piece) + y + pos_y offset
      in if boardX < 0 \<or> boardX \<ge> BOARD_WIDTH then Inr False
         else if boardY \<ge> BOARD_HEIGHT then Inr False
         else if boardY \<ge> 0 then
           (case arr_get b boardY of
              None \<Rightarrow> Inl TypeError
            | Some row \<Rightarrow>
                (case arr_get row boardX of
                   Some s \<Rightarrow> if truthy s then Inr False else canPlace_cells b piece offset cs
                 | None \<Rightarrow> canPlace_cells b piece offset cs))
         else canPlace_cells b piece offset cs)"

definition canPlace :: "board \<Rightarrow> ActivePiece \<Rightarrow> Position \<Rightarrow> int \<Rightarrow> error + bool" where
  "canPlace b piece offset rotationShift =
     (let rotations = getRotations (ptype piece);
          n = int (length rotations)
      in case arr_get rotations (js_rem (rotation piece + rotationShift + n) n) of
           None \<Rightarrow> Inl TypeError
         | Some matrix \<Rightarrow> canPlace_cells b piece offset (occupied matrix))"

text \<open>A board as the engine keeps it: 20 rows of 10 elements, none of them a hole.\<close>

definition valid_board :: "board \<Rightarrow> bool" where
  "valid_board b \<longleftrightarrow>
     length b = 20 \<and> (\<forall>row \<in> set b. length row = 10 \<and> Hole \<notin> set row)"


subsection \<open>Bag randomizer\<close>

text \<open>
  \<open>Math.random()\<close> is the only input of the engine that is not in its state: \<open>rnd k\<close>
  is the value of the \<open>k\<close>-th call, a number in \<open>[0, 1)\<close>. Each pass of the loop of
  \<open>generateBag\<close> draws once. Within that range \<open>j\<close> is an index of the bag, so the
  destructuring swap writes inside the array.
\<close>

definition swap :: "nat \<Rightarrow> nat \<Rightarrow> 'a list \<Rightarrow> 'a list" where
  "swap i j bag = bag[i := bag ! j, j := bag ! i]"

fun shuffle :: "(nat \<Rightarrow> real) \<Rightarrow> nat \<Rightarrow> nat \<Rightarrow> 'a list \<Rightarrow> 'a list" where
  "shuffle rnd k 0 bag = bag"
| "shuffle rnd k (Suc i') bag =
     (let i = Suc i';
          j = nat \<lfloor>rnd k * real (i + 1)\<rfloor>
      in shuffle rnd (k + 1) i' (swap i j bag))"

definition generateBag :: "(nat \<Rightarrow> real) \<Rightarrow> TetrominoType list" where
  "generateBag rnd = shuffle rnd 0 (length ALL_TETROMINOES - 1) ALL_TETROMINOES"

text \<open>The draws that remain after one bag has been generated.\<close>

definition after_bag :: "(nat \<Rightarrow> real) \<Rightarrow> nat \<Rightarrow> real" where
  "after_bag rnd = (\<lambda>k. rnd (k + 6))"

subsection \<open>Component state\<close>

text \<open>
  The \<open>useState\<close> values and the refs of the component. \<open>lockTimeout\<close> says whether the
  ref holds a timer. \<open>activeRef\<close>, \<open>statusRef\<close> and \<open>statsRef\<close> are copied from the
  state by the effects that run after a render (\<open>render\<close>). The refs that only serve
  the clock of the drop loop (\<open>timerRef\<close>, \<open>lastTickRef\<close>, \<open>softDroppingRef\<close>) are
  left out: the drop loop is the call \<open>dropPiece soft\<close>, for either value of \<open>soft\<close>.
\<close>

record GameState =
  board :: board
  active :: "ActivePiece option"
  queue :: "TetrominoType list"
  hold :: "TetrominoType option"
  hasHeld :: bool
  status :: GameStatus
  stats :: GameStats
  highScore :: int
  messages :: "string list"
  lockTimeout :: bool
  activeRef :: "ActivePiece option"
  statusRef :: GameStatus
  statsRef :: GameStats
  gameOverRef :: bool

definition createInitialStats :: GameStats where
  "createInitialStats =
     \<lparr>score = 0, level = 0, lines = 0, combo = 0, maxCombo = 0, cleared = [0, 0, 0, 0],
      tetrisCount = 0, hardDrops = 0, pieces = 0, playTime = 0\<rparr>"

text \<open>The state of the component when it mounts; the stored high score is a parameter.\<close>

definition initialState :: "(nat \<Rightarrow> real) \<Rightarrow> int \<Rightarrow> GameState" where
  "initialState rnd stored =
     \<lparr>board = createEmptyBoard, active = None,
      queue = generateBag rnd @ generateBag (after_bag rnd),
      hold = None, hasHeld = False, status = ready, stats = createInitialStats,
      highScore = stored, messages = [], lockTimeout = False,
      activeRef = None, statusRef = ready, statsRef = createInitialStats,
      gameOverRef = False\<rparr>"

definition render :: "GameState \<Rightarrow> GameState" where
  "render s = s\<lparr>activeRef := active s, statusRef := status s, statsRef := stats s\<rparr>"

definition addMessage :: "string \<Rightarrow> GameState \<Rightarrow> GameState" where
  "addMessage text s = s\<lparr>messages := take 4 (text # messages s)\<rparr>"

text \<open>The piece a spawn makes active: rotation 0, centred, the I piece one row higher.\<close>

definition spawned :: "TetrominoType \<Rightarrow> ActivePiece" where
  "spawned t =
     (let rotations = getRotations t;
          matrix = rotations ! 0;
          width = int (length (matrix ! 0));
          spawnX = (BOARD_WIDTH - width) div 2;
          spawnY = (if t = TetI then -1 else 0)
      in \<lparr>ptype = t, rotation = 0, position = \<lparr>pos_x = spawnX, pos_y = spawnY\<rparr>\<rparr>)"

definition spawnPiece :: "(nat \<Rightarrow> real) \<Rightarrow> TetrominoType option \<Rightarrow> GameState \<Rightarrow> GameState" where
  "spawnPiece rnd forcedType s =
     (let prevQueue = queue s;
          (t, nextQueue, rnd') =
            (case forcedType of
               Some f \<Rightarrow> (f, prevQueue, rnd)
             | None \<Rightarrow>
                (case prevQueue of
                   q # rest \<Rightarrow> (q, rest, rnd)
                 | [] \<Rightarrow> (generateBag rnd ! 0, [], after_bag rnd)));
          nextQueue' = (if length nextQueue < 7 then nextQueue @ generateBag rnd' else nextQueue)
      in s\<lparr>active := Some (spawned t),
           hasHeld := False,
           stats := (stats s)\<lparr>pieces := pieces (stats s) + 1\<rparr>,
           queue := nextQueue'\<rparr>)"

definition resetGame :: "(nat \<Rightarrow> real) \<Rightarrow> GameState \<Rightarrow> GameState" where
  "resetGame rnd s =
     (let bag = generateBag rnd @ generateBag (after_bag rnd);
          (firstType, rest) = (case bag of [] \<Rightarrow> (TetI, []) | t # ts \<Rightarrow> (t, ts))
      in s\<lparr>lockTimeout := False,
           board := createEmptyBoard,
           stats := createInitialStats\<lparr>pieces := 1\<rparr>,
           queue := rest,
           hold := None,
           hasHeld := False,
           messages := [],
           gameOverRef := False,
           active := Some (spawned firstType)\<rparr>)"

definition startGame :: "(nat \<Rightarrow> real) \<Rightarrow> GameState \<Rightarrow> GameState" where
  "startGame rnd s = resetGame rnd (s\<lparr>status := playing\<rparr>)"

subsection \<open>Lock and clear pipeline\<close>

text \<open>
  \<open>row.some((cell) => !cell)\<close> skips holes, so a row is kept when one of its elements
  is \<open>null\<close>. \<open>Array.from({ length: n })\<close> is empty for a negative \<open>n\<close>.
\<close>

definition clearLines :: "board \<Rightarrow> board \<times> int" where
  "clearLines boardState =
     (let next = filter (\<lambda>row. \<exists>cell \<in> set row. cell = Empty) boardState;
          clearedLines = BOARD_HEIGHT - int (length next)
      in if clearedLines = 0 then (boardState, 0)
         else (replicate (nat clearedLines) (replicate (nat BOARD_WIDTH) Empty) @ next,
               clearedLines))"

definition updateForClear :: "int \<Rightarrow> GameState \<Rightarrow> GameState" where
  "updateForClear clearedLines s =
     (if clearedLines = 0 then s\<lparr>stats := (stats s)\<lparr>combo := 0\<rparr>\<rparr>
      else
        let points = (case arr_get lineScores clearedLines of
                        Some p \<Rightarrow> p
                      | None \<Rightarrow> clearedLines * 200);
            prev = stats s;
            newCombo = combo prev + 1;
            comboBonus = (if newCombo > 1 then (newCombo - 1) * COMBO_BONUS else 0);
            newLines = lines prev + clearedLines;
            newLevel = newLines div LINES_PER_LEVEL;
            tetrisCount' = (if clearedLines = 4 then tetrisCount prev + 1 else tetrisCount prev);
            s' = s\<lparr>stats := prev\<lparr>
                   score := score prev + points * (level prev + 1) + comboBonus * (level prev + 1),
                   level := newLevel,
                   lines := newLines,
                   combo := newCombo,
                   maxCombo := max (maxCombo prev) newCombo,
                   cleared := map (\<lambda>(idx, val). if int idx = clearedLines - 1 then val + 1 else val)
                                  (enumerate 0 (cleared prev)),
                   tetrisCount := tetrisCount'\<rparr>\<rparr>
        in if clearedLines = 4 then addMessage ''Tetris! +Ultra Bonus'' s'
           else if clearedLines = 3 then addMessage ''Triple Sonic!'' s'
           else if clearedLines = 2 then addMessage ''Double Dash!'' s'
           else addMessage ''Line Break!'' s')"

text \<open>
  The loops of the board updater of \<open>finalizeLock\<close>: \<open>None\<close> is the early
  \<open>return prev\<close> of a top-out, \<open>Some next\<close> the copy with the cells written so far.
\<close>

fun lock_cells :: "board \<Rightarrow> ActivePiece \<Rightarrow> (int \<times> int) list \<Rightarrow> error + board option" where
  "lock_cells next piece [] = Inr (Some next)"
| "lock_cells next piece ((x, y) # cs) =
     (let boardX = pos_x (position piece) + x;
          boardY = pos_y (position piece) + y
      in if boardY < 0 then Inr None
         else (case arr_get next boardY of
                 None \<Rightarrow> Inl TypeError
               | Some row \<Rightarrow>
                   lock_cells
                     (next[nat boardY :=
                        arr_set row boardX (Filled \<lparr>cell_type = ptype piece, cell_ghost = None, cell_fading = None\<rparr>)])
                     piece cs))"

text \<open>
  The updater passed to \<open>setBoard\<close>: the new board, with the values it assigns to the
  locals \<open>linesCleared\<close> and \<open>triggeredGameOver\<close> of the callback when it runs.
\<close>

definition lock_board :: "board \<Rightarrow> ActivePiece \<Rightarrow> error + (board \<times> int \<times> bool)" where
  "lock_board prev piece =
     (let next = map spread prev
      in case arr_get (getRotations (ptype piece)) (rotation piece) of
           None \<Rightarrow> Inl TypeError
         | Some matrix \<Rightarrow>
             (case lock_cells next piece (occupied matrix) of
                Inl e \<Rightarrow> Inl e
              | Inr None \<Rightarrow> Inr (prev, 0, True)
              | Inr (Some written) \<Rightarrow>
                  (let result = clearLines written
                   in Inr (fst result, snd result, False))))"

text \<open>
  \<open>finalizeLock\<close>. The callback tests \<open>triggeredGameOver\<close> and \<open>linesCleared\<close> before the
  board updater has run, so it tests \<open>false\<close> and \<open>0\<close>, the values of their
  declarations; the branches are kept as the source has them. The render then runs the
  board updater on the board and the queue updater of \<open>spawnPiece\<close>. An exception in the
  board updater is an exception of the render.
\<close>

definition finalizeLock :: "(nat \<Rightarrow> real) \<Rightarrow> ActivePiece \<Rightarrow> GameState \<Rightarrow> error + GameState" where
  "finalizeLock rnd piece s =
     (let linesCleared = (0 :: int);
          triggeredGameOver = False;
          s1 = s\<lparr>active := None\<rparr>;
          called =
            (if triggeredGameOver then
               (let s2 = addMessage ''Game Over - Press Space to restart''
                           (s1\<lparr>gameOverRef := True, status := gameover\<rparr>);
                    s3 = s2\<lparr>highScore :=
                            (if score (statsRef s2) > highScore s2 then score (statsRef s2)
                             else highScore s2)\<rparr>
                in s3\<lparr>stats := (stats s3)\<lparr>combo := 0\<rparr>\<rparr>)
             else
               (let s2 = (if linesCleared > 0 then updateForClear linesCleared s1
                          else s1\<lparr>stats := (stats s1)\<lparr>combo := 0\<rparr>\<rparr>)
                in spawnPiece rnd None (s2\<lparr>lockTimeout := False\<rparr>)))
      in case lock_board (board s) piece of
           Inl e \<Rightarrow> Inl e
         | Inr (newBoard, nCleared, toppedOut) \<Rightarrow> Inr (called\<lparr>board := newBoard\<rparr>))"

subsection \<open>Active piece controller\<close>

text \<open>
  The loop of \<open>hardDrop\<close> runs while \<open>canPlace\<close> accepts one more row. It ends because
  every matrix of the shape table has an occupied cell, and \<open>canPlace\<close> rejects a cell
  at row 20 or below.
\<close>

lemma row_cells_nonneg: "(x, y') \<in> set (row_cells y x0 vs) \<Longrightarrow> y' = y"
  by (induction vs arbitrary: x0) (auto split: if_splits)

lemma matrix_cells_nonneg: "(x, y') \<in> set (matrix_cells y m) \<Longrightarrow> y \<le> y'"
proof (induction m arbitrary: y)
  case Nil
  then show ?case by simp
next
  case (Cons r rs)
  then show ?case by (fastforce dest: row_cells_nonneg)
qed

lemma occupied_nonneg: "(x, y) \<in> set (occupied m) \<Longrightarrow> 0 \<le> y"
  unfolding occupied_def by (rule matrix_cells_nonneg)

lemma occupied_nonempty: "m \<in> set (getRotations t) \<Longrightarrow> occupied m \<noteq> []"
  by (cases t) (auto simp: getRotations_def TETROMINOES_def occupied_def)

lemma canPlace_cells_below:
  "canPlace_cells b p off cs = Inr True \<Longrightarrow> (x, y) \<in> set cs
   \<Longrightarrow> pos_y (position p) + y + pos_y off < 20"
proof (induction cs)
  case Nil
  then show ?case by simp
next
  case (Cons c cs)
  obtain cx cy where c: "c = (cx, cy)" by (cases c)
  from Cons.prems(1) have here: "pos_y (position p) + cy + pos_y off < 20"
    and rest: "canPlace_cells b p off cs = Inr True"
    unfolding c
    by (auto simp: Let_def BOARD_HEIGHT_def split: if_splits option.splits)
  from Cons.prems(2) consider "(x, y) = (cx, cy)" | "(x, y) \<in> set cs" by (auto simp: c)
  then show ?case
  proof cases
    case 1
    with here show ?thesis by simp
  next
    case 2
    with Cons.IH rest show ?thesis by simp
  qed
qed

lemma canPlace_True_below:
  assumes "canPlace b p off shift = Inr True"
  shows "pos_y (position p) + pos_y off < 20"
proof -
  define rotations where "rotations = getRotations (ptype p)"
  define k where "k = js_rem (rotation p + shift + int (length rotations)) (int (length rotations))"
  from assms have k: "0 \<le> k" "k < int (length rotations)"
    and cells: "canPlace_cells b p off (occupied (rotations ! nat k)) = Inr True"
    by (auto simp: canPlace_def Let_def arr_get_def rotations_def k_def split: option.splits if_splits)
  define matrix where "matrix = rotations ! nat k"
  from k have m: "matrix \<in> set (getRotations (ptype p))"
    unfolding matrix_def rotations_def [symmetric] by (simp add: nat_less_iff)
  note cells = cells [folded matrix_def]
  from occupied_nonempty [OF m] obtain x y where xy: "(x, y) \<in> set (occupied matrix)"
    by (cases "occupied matrix") auto
  from canPlace_cells_below [OF cells xy] occupied_nonneg [OF xy] show ?thesis by simp
qed

function hardDrop_loop :: "board \<Rightarrow> ActivePiece \<Rightarrow> int \<Rightarrow> error + (ActivePiece \<times> int)" where
  "hardDrop_loop b ghost distance =
     (case canPlace b ghost \<lparr>pos_x = 0, pos_y = 1\<rparr> 0 of
        Inl e \<Rightarrow> Inl e
      | Inr ok \<Rightarrow>
          if ok then
            hardDrop_loop b
              (ghost\<lparr>position := \<lparr>pos_x = pos_x (position ghost), pos_y = pos_y (position ghost) + 1\<rparr>\<rparr>)
              (distance + 1)
          else Inr (ghost, distance))"
  by pat_completeness auto
termination
proof (relation "measure (\<lambda>(b, ghost, distance). nat (20 - pos_y (position ghost)))")
  show "wf (measure (\<lambda>(b, ghost, distance). nat (20 - pos_y (position ghost))))" by simp
next
  fix b ghost distance and x2 :: bool
  assume "canPlace b ghost \<lparr>pos_x = 0, pos_y = 1\<rparr> 0 = Inr x2" and x2
  then have "canPlace b ghost \<lparr>pos_x = 0, pos_y = 1\<rparr> 0 = Inr True" by simp
  from canPlace_True_below [OF this] have "pos_y (position ghost) < 19" by simp
  then show "((b, ghost\<lparr>position := \<lparr>pos_x = pos_x (position ghost), pos_y = pos_y (position ghost) + 1\<rparr>\<rparr>,
               distance + 1), b, ghost, distance)
             \<in> measure (\<lambda>(b, ghost, distance). nat (20 - pos_y (position ghost)))"
    by simp
qed

definition translate :: "ActivePiece \<Rightarrow> Position \<Rightarrow> ActivePiece" where
  "translate prev offset =
     prev\<lparr>position := \<lparr>pos_x = pos_x (position prev) + pos_x offset,
                          pos_y = pos_y (position prev) + pos_y offset\<rparr>\<rparr>"

definition dropPiece :: "(nat \<Rightarrow> real) \<Rightarrow> bool \<Rightarrow> bool \<Rightarrow> GameState \<Rightarrow> error + GameState" where
  "dropPiece rnd soft forceLock s =
     (case active s of
        None \<Rightarrow> Inr s
      | Some a \<Rightarrow>
          if status s \<noteq> playing then Inr s
          else
            (let offset = \<lparr>pos_x = 0, pos_y = 1\<rparr>
             in case (if forceLock then Inr False else canPlace (board s) a offset 0) of
                  Inl e \<Rightarrow> Inl e
                | Inr free \<Rightarrow>
                    if free then
                      (let s1 = s\<lparr>active := map_option (\<lambda>prev. translate prev offset) (active s)\<rparr>
                       in Inr (if soft
                               then s1\<lparr>stats := (stats s1)\<lparr>score := score (stats s1) + DROP_SCORE\<rparr>\<rparr>
                               else s1))
                    else if forceLock then finalizeLock rnd a s
                    else Inr (s\<lparr>lockTimeout := True\<rparr>)))"

text \<open>
  The callback of the lock-delay timer that \<open>dropPiece\<close> arms. Its \<open>canPlace\<close> is the
  one of the render in which the timer was armed: \<open>captured\<close> is the board of that
  render.
\<close>

definition lockTimeoutCallback :: "(nat \<Rightarrow> real) \<Rightarrow> board \<Rightarrow> GameState \<Rightarrow> error + GameState" where
  "lockTimeoutCallback rnd captured s =
     (case activeRef s of
        None \<Rightarrow> Inr s
      | Some current \<Rightarrow>
          if statusRef s \<noteq> playing then Inr s
          else (case canPlace captured current \<lparr>pos_x = 0, pos_y = 1\<rparr> 0 of
                  Inl e \<Rightarrow> Inl e
                | Inr free \<Rightarrow> if free then Inr s else finalizeLock rnd current s))"

definition hardDrop :: "(nat \<Rightarrow> real) \<Rightarrow> GameState \<Rightarrow> error + GameState" where
  "hardDrop rnd s =
     (case active s of
        None \<Rightarrow> Inr s
      | Some a \<Rightarrow>
          if status s \<noteq> playing then Inr s
          else (case hardDrop_loop (board s) a 0 of
                  Inl e \<Rightarrow> Inl e
                | Inr (ghost, distance) \<Rightarrow>
                    (let s1 = s\<lparr>stats := (stats s)\<lparr>
                                score := score (stats s) + distance * DROP_SCORE * 3,
                                hardDrops := hardDrops (stats s) + 1\<rparr>\<rparr>;
                         s2 = addMessage ''Hyper Drop!'' s1
                     in finalizeLock rnd ghost s2)))"

definition movePiece :: "int \<Rightarrow> GameState \<Rightarrow> error + GameState" where
  "movePiece dir s =
     (case active s of
        None \<Rightarrow> Inr s
      | Some a \<Rightarrow>
          if status s \<noteq> playing then Inr s
          else (case canPlace (board s) a \<lparr>pos_x = dir, pos_y = 0\<rparr> 0 of
                  Inl e \<Rightarrow> Inl e
                | Inr free \<Rightarrow>
                    if free then
                      Inr (s\<lparr>active := map_option (\<lambda>prev. translate prev \<lparr>pos_x = dir, pos_y = 0\<rparr>) (active s),
                             lockTimeout := False\<rparr>)
                    else Inr s))"

definition kicks :: "Position list" where
  "kicks = [\<lparr>pos_x = 0, pos_y = 0\<rparr>, \<lparr>pos_x = -1, pos_y = 0\<rparr>, \<lparr>pos_x = 1, pos_y = 0\<rparr>,
            \<lparr>pos_x = 0, pos_y = -1\<rparr>, \<lparr>pos_x = 0, pos_y = 1\<rparr>]"

text \<open>The loop \<open>for (const kick of kicks)\<close> of \<open>rotatePiece\<close>, which returns at the first kick that fits.\<close>

fun rotate_kicks :: "GameState \<Rightarrow> ActivePiece \<Rightarrow> int \<Rightarrow> int \<Rightarrow> Position list \<Rightarrow> error + GameState" where
  "rotate_kicks s a dir nextRotation [] = Inr s"
| "rotate_kicks s a dir nextRotation (kick # rest) =
     (case canPlace (board s) a kick dir of
        Inl e \<Rightarrow> Inl e
      | Inr free \<Rightarrow>
          if free then
            Inr (s\<lparr>active := map_option (\<lambda>prev. (translate prev kick)\<lparr>rotation := nextRotation\<rparr>) (active s),
                   lockTimeout := False\<rparr>)
          else rotate_kicks s a dir nextRotation rest)"

definition rotatePiece :: "int \<Rightarrow> GameState \<Rightarrow> error + GameState" where
  "rotatePiece dir s =
     (case active s of
        None \<Rightarrow> Inr s
      | Some a \<Rightarrow>
          if status s \<noteq> playing then Inr s
          else
            (let rotations = getRotations (ptype a);
                 n = int (length rotations);
                 nextRotation = js_rem (rotation a + dir + n) n
             in rotate_kicks s a dir nextRotation kicks))"

text \<open>
  \<open>holdPiece\<close>. The setters it calls itself are \<open>setHasHeld(true)\<close>, \<open>setHold\<close> (with the
  type of the active piece in either branch), \<open>setActive(null)\<close> and \<open>setMessages\<close>; the
  setters of \<open>spawnPiece\<close> (\<open>setActive\<close>, \<open>setHasHeld(false)\<close>, \<open>setStats\<close>) are inside
  its queue updater and come after them. The forced type is the piece in the hold slot,
  if there is one.
\<close>

definition holdPiece :: "(nat \<Rightarrow> real) \<Rightarrow> GameState \<Rightarrow> GameState" where
  "holdPiece rnd s =
     (case active s of
        None \<Rightarrow> s
      | Some a \<Rightarrow>
          if status s \<noteq> playing \<or> hasHeld s then s
          else
            (let s1 = s\<lparr>lockTimeout := False, hasHeld := True\<rparr>;
                 s2 = s1\<lparr>hold := Some (ptype a)\<rparr>;
                 s3 = s2\<lparr>active := None\<rparr>;
                 s4 = addMessage ''Hold Swap'' s3
             in spawnPiece rnd (hold s) s4))"

definition togglePause :: "GameState \<Rightarrow> GameState" where
  "togglePause s =
     addMessage ''Pause Toggled''
       (s\<lparr>status := (if status s = playing then paused
                      else if status s = paused then playing
                      else status s)\<rparr>)"

text \<open>The one-second interval that runs while the status is \<open>playing\<close>.\<close>

definition tickPlayTime :: "GameState \<Rightarrow> GameState" where
  "tickPlayTime s = s\<lparr>stats := (stats s)\<lparr>playTime := playTime (stats s) + 1\<rparr>\<rparr>"


section \<open>Collision detection\<close>

text \<open>
  The statement of the placement rule, in the words of the specification: a cell of the
  piece is blocked when its column is outside \<open>[0, 10)\<close>, its row is 20 or more, or it
  lies on an occupied cell of the board at a row that is not negative. The candidate
  matrix is the one at \<open>(rotation + rotationShift) mod\<close> the number of rotations.
\<close>

definition spec_blocked :: "board \<Rightarrow> int \<Rightarrow> int \<Rightarrow> bool" where
  "spec_blocked b boardX boardY \<longleftrightarrow>
     boardX < 0 \<or> boardX \<ge> 10 \<or> boardY \<ge> 20 \<or>
     (0 \<le> boardY \<and> boardY < 20 \<and> 0 \<le> boardX \<and> boardX < 10 \<and> truthy (b ! nat boardY ! nat boardX))"

definition spec_candidate :: "ActivePiece \<Rightarrow> int \<Rightarrow> nat list list" where
  "spec_candidate piece rotationShift =
     (let rotations = getRotations (ptype piece)
      in rotations ! nat ((rotation piece + rotationShift) mod int (length rotations)))"

lemma set_row_cells:
  "set (row_cells y x vs) = {(x + int i, y) | i. i < length vs \<and> vs ! i \<noteq> 0}"
proof (induction vs arbitrary: x)
  case Nil
  then show ?case by simp
next
  case (Cons v vs)
  have "{(x + int i, y) | i. i < length (v # vs) \<and> (v # vs) ! i \<noteq> 0}
      = (if v \<noteq> 0 then {(x, y)} else {}) \<union> {(x + 1 + int i, y) | i. i < length vs \<and> vs ! i \<noteq> 0}"
    (is "?L = ?R")
  proof (rule set_eqI)
    fix p
    show "p \<in> ?L \<longleftrightarrow> p \<in> ?R"
    proof
      assume "p \<in> ?L"
      then obtain i where i: "p = (x + int i, y)" "i < length (v # vs)" "(v # vs) ! i \<noteq> 0" by blast
      show "p \<in> ?R"
      proof (cases i)
        case 0
        with i show ?thesis by simp
      next
        case (Suc k)
        with i have "p = (x + 1 + int k, y)" "k < length vs" "vs ! k \<noteq> 0" by simp_all
        then show ?thesis by blast
      qed
    next
      assume "p \<in> ?R"
      then consider "v \<noteq> 0" "p = (x, y)"
        | k where "p = (x + 1 + int k, y)" "k < length vs" "vs ! k \<noteq> 0"
        by (auto split: if_splits)
      then show "p \<in> ?L"
      proof cases
        case 1
        then have "p = (x + int 0, y) \<and> 0 < length (v # vs) \<and> (v # vs) ! 0 \<noteq> 0" by simp
        then show ?thesis by blast
      next
        case 2
        then have "p = (x + int (Suc k), y) \<and> Suc k < length (v # vs) \<and> (v # vs) ! Suc k \<noteq> 0" by simp
        then show ?thesis by blast
      qed
    qed
  qed
  with Cons show ?case by auto
qed

lemma set_matrix_cells:
  "set (matrix_cells y m) =
     {(int i, y + int j) | i j. j < length m \<and> i < length (m ! j) \<and> m ! j ! i \<noteq> 0}"
proof (induction m arbitrary: y)
  case Nil
  then show ?case by simp
next
  case (Cons r rs)
  have "{(int i, y + int j) | i j. j < length (r # rs) \<and> i < length ((r # rs) ! j) \<and> (r # rs) ! j ! i \<noteq> 0}
      = {(int i, y) | i. i < length r \<and> r ! i \<noteq> 0}
        \<union> {(int i, y + 1 + int j) | i j. j < length rs \<and> i < length (rs ! j) \<and> rs ! j ! i \<noteq> 0}"
    (is "?L = ?A \<union> ?B")
  proof (rule set_eqI)
    fix p
    show "p \<in> ?L \<longleftrightarrow> p \<in> ?A \<union> ?B"
    proof
      assume "p \<in> ?L"
      then obtain i j where ij: "p = (int i, y + int j)" "j < length (r # rs)"
        "i < length ((r # rs) ! j)" "(r # rs) ! j ! i \<noteq> 0" by blast
      show "p \<in> ?A \<union> ?B"
      proof (cases j)
        case 0
        with ij have "p = (int i, y)" "i < length r" "r ! i \<noteq> 0" by simp_all
        then show ?thesis by blast
      next
        case (Suc k)
        with ij have "p = (int i, y + 1 + int k)" "k < length rs" "i < length (rs ! k)" "rs ! k ! i \<noteq> 0"
          by simp_all
        then show ?thesis by blast
      qed
    next
      assume "p \<in> ?A \<union> ?B"
      then consider i where "p = (int i, y)" "i < length r" "r ! i \<noteq> 0"
        | i k where "p = (int i, y + 1 + int k)" "k < length rs" "i < length (rs ! k)" "rs ! k ! i \<noteq> 0"
        by blast
      then show "p \<in> ?L"
      proof cases
        case 1
        then have "p = (int i, y + int 0) \<and> 0 < length (r # rs) \<and> i < length ((r # rs) ! 0) \<and> (r # rs) ! 0 ! i \<noteq> 0"
          by simp
        then show ?thesis by blast
      next
        case 2
        then have "p = (int i, y + int (Suc k)) \<and> Suc k < length (r # rs) \<and> i < length ((r # rs) ! Suc k)
            \<and> (r # rs) ! Suc k ! i \<noteq> 0"
          by simp
        then show ?thesis by blast
      qed
    qed
  qed
  moreover have "set (row_cells y 0 r) = ?A" by (simp add: set_row_cells)
  ultimately show ?case using Cons by simp
qed

lemma set_occupied:
  "set (occupied m) = {(int i, int j) | i j. j < length m \<and> i < length (m ! j) \<and> m ! j ! i \<noteq> 0}"
  by (simp add: occupied_def set_matrix_cells)

lemma canPlace_cells_eq:
  assumes "length b = 20" "\<forall>row \<in> set b. length row = 10"
  shows "canPlace_cells b piece offset cs =
     Inr (\<forall>(x, y) \<in> set cs. \<not> spec_blocked b (pos_x (position piece) + x + pos_x offset)
                                     (pos_y (position piece) + y + pos_y offset))"
proof (induction cs)
  case Nil
  then show ?case by simp
next
  case (Cons c cs)
  obtain x y where c: "c = (x, y)" by (cases c)
  define bx where "bx = pos_x (position piece) + x + pos_x offset"
  define by' where "by' = pos_y (position piece) + y + pos_y offset"
  have row: "0 \<le> by' \<Longrightarrow> by' < 20 \<Longrightarrow> arr_get b by' = Some (b ! nat by') \<and> length (b ! nat by') = 10"
    using assms by (simp add: arr_get_def)
  show ?case
  proof (cases "spec_blocked b bx by'")
    case True
    then have "canPlace_cells b piece offset (c # cs) = Inr False"
      using row unfolding c spec_blocked_def
      by (auto simp: Let_def BOARD_WIDTH_def BOARD_HEIGHT_def arr_get_def bx_def by'_def)
    with True show ?thesis by (simp add: c bx_def by'_def)
  next
    case False
    then have "canPlace_cells b piece offset (c # cs) = canPlace_cells b piece offset cs"
      using row unfolding c spec_blocked_def
      by (auto simp: Let_def BOARD_WIDTH_def BOARD_HEIGHT_def arr_get_def bx_def by'_def)
    with False Cons show ?thesis by (simp add: c bx_def by'_def)
  qed
qed

lemma js_rem_nonneg: "0 \<le> a \<Longrightarrow> 0 < b \<Longrightarrow> js_rem a b = a mod b"
  by (cases "a = 0") (simp_all add: js_rem_def)

lemma length_getRotations_pos: "0 < length (getRotations t)"
  by (cases t) (simp_all add: getRotations_def TETROMINOES_def)

lemma valid_board_empty: "valid_board createEmptyBoard"
  by (simp add: valid_board_def createEmptyBoard_def BOARD_HEIGHT_def BOARD_WIDTH_def)

text \<open>
  C1. On a 20 x 10 board, for every piece, offset and rotation shift whose target index
  \<open>rotation + rotationShift + n\<close> is not negative, \<open>canPlace\<close> returns false exactly
  when some occupied cell of the candidate matrix is blocked: its column is outside
  \<open>[0, 10)\<close>, its row is at least 20, or it lands on an occupied cell at a row that is
  not negative. A cell at a negative row is never blocked by the board.
\<close>

theorem canPlace_false_iff_blocked:
  assumes "valid_board b"
    and "0 \<le> rotation piece + rotationShift + int (length (getRotations (ptype piece)))"
  shows "canPlace b piece offset rotationShift =
     Inr (\<not> (\<exists>y < length (spec_candidate piece rotationShift).
              \<exists>x < length (spec_candidate piece rotationShift ! y).
                spec_candidate piece rotationShift ! y ! x \<noteq> 0 \<and>
                spec_blocked b (pos_x (position piece) + int x + pos_x offset)
                               (pos_y (position piece) + int y + pos_y offset)))"
proof -
  define rotations where "rotations = getRotations (ptype piece)"
  define n where "n = int (length rotations)"
  have n: "0 < n" unfolding n_def rotations_def using length_getRotations_pos by simp
  have k: "js_rem (rotation piece + rotationShift + n) n = (rotation piece + rotationShift) mod n"
    using assms(2) n js_rem_nonneg [of "rotation piece + rotationShift + n" n]
    by (simp add: n_def rotations_def)
  have rng: "0 \<le> (rotation piece + rotationShift) mod n" "(rotation piece + rotationShift) mod n < n"
    using n by simp_all
  have m: "arr_get rotations (js_rem (rotation piece + rotationShift + n) n)
             = Some (spec_candidate piece rotationShift)"
    using rng unfolding k by (simp add: arr_get_def spec_candidate_def Let_def rotations_def n_def)
  have dims: "length b = 20" "\<forall>row \<in> set b. length row = 10"
    using assms(1) by (simp_all add: valid_board_def)
  have "canPlace b piece offset rotationShift
          = canPlace_cells b piece offset (occupied (spec_candidate piece rotationShift))"
    using m by (simp add: canPlace_def Let_def rotations_def n_def)
  also have "\<dots> = Inr (\<forall>(x, y) \<in> set (occupied (spec_candidate piece rotationShift)).
                 \<not> spec_blocked b (pos_x (position piece) + x + pos_x offset)
                                   (pos_y (position piece) + y + pos_y offset))"
    by (rule canPlace_cells_eq [OF dims])
  also have "(\<forall>(x, y) \<in> set (occupied (spec_candidate piece rotationShift)).
                 \<not> spec_blocked b (pos_x (position piece) + x + pos_x offset)
                                   (pos_y (position piece) + y + pos_y offset))
      \<longleftrightarrow> \<not> (\<exists>y < length (spec_candidate piece rotationShift).
              \<exists>x < length (spec_candidate piece rotationShift ! y).
                spec_candidate piece rotationShift ! y ! x \<noteq> 0 \<and>
                spec_blocked b (pos_x (position piece) + int x + pos_x offset)
                               (pos_y (position piece) + int y + pos_y offset))"
    unfolding set_occupied by blast
  finally show ?thesis .
qed

theorem canPlace_false_iff_blocked_witness:
  "valid_board createEmptyBoard \<and>
   canPlace createEmptyBoard \<lparr>ptype = TetI, rotation = 1, position = \<lparr>pos_x = 3, pos_y = -1\<rparr>\<rparr>
       \<lparr>pos_x = 0, pos_y = 0\<rparr> 0 = Inr True \<and>
   \<not> (\<exists>y < length (spec_candidate \<lparr>ptype = TetI, rotation = 1, position = \<lparr>pos_x = 3, pos_y = -1\<rparr>\<rparr> 0).
        \<exists>x < length (spec_candidate \<lparr>ptype = TetI, rotation = 1, position = \<lparr>pos_x = 3, pos_y = -1\<rparr>\<rparr> 0 ! y).
          spec_candidate \<lparr>ptype = TetI, rotation = 1, position = \<lparr>pos_x = 3, pos_y = -1\<rparr>\<rparr> 0 ! y ! x \<noteq> 0 \<and>
          spec_blocked createEmptyBoard (3 + int x + 0) (-1 + int y + 0))"
proof -
  let ?p = "\<lparr>ptype = TetI, rotation = 1, position = \<lparr>pos_x = 3, pos_y = -1\<rparr>\<rparr>"
  have h1: "valid_board createEmptyBoard" by (rule valid_board_empty)
  have h2: "0 \<le> rotation ?p + 0 + int (length (getRotations (ptype ?p)))" by simp
  have a: "canPlace createEmptyBoard ?p \<lparr>pos_x = 0, pos_y = 0\<rparr> 0 = Inr True"
    by code_simp
  from canPlace_false_iff_blocked [OF h1 h2, of "\<lparr>pos_x = 0, pos_y = 0\<rparr>"] a h1
  show ?thesis by simp
qed

section \<open>Line clearing\<close>

text \<open>A fully occupied row, in the words of the specification: every cell is occupied.\<close>

definition spec_full_row :: "slot list \<Rightarrow> bool" where
  "spec_full_row row \<longleftrightarrow> (\<forall>cell \<in> set row. truthy cell)"

lemma truthy_iff: "truthy c \<longleftrightarrow> c \<noteq> Empty \<and> c \<noteq> Hole"
  by (cases c) simp_all

lemma kept_row_iff:
  assumes "Hole \<notin> set row"
  shows "(\<exists>cell \<in> set row. cell = Empty) \<longleftrightarrow> \<not> spec_full_row row"
  using assms unfolding spec_full_row_def truthy_iff by metis

lemma filter_kept_rows:
  assumes "valid_board b"
  shows "filter (\<lambda>row. \<exists>cell \<in> set row. cell = Empty) b = filter (\<lambda>row. \<not> spec_full_row row) b"
proof (rule filter_cong [OF refl])
  fix row assume "row \<in> set b"
  with assms have "Hole \<notin> set row" by (simp add: valid_board_def)
  then show "(\<exists>cell \<in> set row. cell = Empty) \<longleftrightarrow> \<not> spec_full_row row" by (rule kept_row_iff)
qed

lemma length_filter_split:
  "length (filter P xs) + length (filter (\<lambda>x. \<not> P x) xs) = length xs"
  by (induction xs) auto

text \<open>
  C3. On a 20 x 10 board \<open>clearLines\<close> returns the rows that are not fully occupied,
  in their order and unchanged, below as many empty rows of width 10 as there were fully
  occupied rows; the count it returns is the number of fully occupied rows, and the
  result is again a 20 x 10 board.
\<close>

theorem clearLines_compacts:
  assumes "valid_board b"
  shows "fst (clearLines b) =
           replicate (length (filter spec_full_row b)) (replicate 10 Empty)
           @ filter (\<lambda>row. \<not> spec_full_row row) b
       \<and> snd (clearLines b) = int (length (filter spec_full_row b))
       \<and> valid_board (fst (clearLines b))"
proof -
  define kept where "kept = filter (\<lambda>row. \<not> spec_full_row row) b"
  define k where "k = length (filter spec_full_row b)"
  have len: "length b = 20" using assms by (simp add: valid_board_def)
  have split: "k + length kept = 20"
    using length_filter_split [of spec_full_row b] len by (simp add: k_def kept_def)
  have next_eq: "filter (\<lambda>row. \<exists>cell \<in> set row. cell = Empty) b = kept"
    unfolding kept_def by (rule filter_kept_rows [OF assms])
  have cleared: "BOARD_HEIGHT - int (length kept) = int k"
    using split by (simp add: BOARD_HEIGHT_def)
  have cl: "clearLines b =
      (if int k = 0 then (b, 0)
       else (replicate (nat (int k)) (replicate (nat BOARD_WIDTH) Empty) @ kept, int k))"
    unfolding clearLines_def Let_def next_eq cleared ..
  have result: "fst (clearLines b) = replicate k (replicate 10 Empty) @ kept \<and> snd (clearLines b) = int k"
  proof (cases "k = 0")
    case True
    then have "length kept = length b" using split len by simp
    then have "kept = b" unfolding kept_def by (metis filter_True length_filter_less nat_neq_iff filter_id_conv)
    with True show ?thesis unfolding cl by simp
  next
    case False
    then show ?thesis unfolding cl by (simp add: BOARD_WIDTH_def)
  qed
  have "valid_board (replicate k (replicate 10 Empty) @ kept)"
    using assms split unfolding valid_board_def kept_def by auto
  with result show ?thesis by (simp add: k_def kept_def)
qed

text \<open>A board whose bottom row alone is full.\<close>

definition full_row :: "slot list" where
  "full_row = replicate 10 (Filled \<lparr>cell_type = TetO, cell_ghost = None, cell_fading = None\<rparr>)"

definition one_full_board :: board where
  "one_full_board = replicate 19 (replicate 10 Empty) @ [full_row]"

lemma valid_one_full_board: "valid_board one_full_board"
  by (auto simp: valid_board_def one_full_board_def full_row_def)

theorem clearLines_compacts_witness:
  "valid_board one_full_board \<and> clearLines one_full_board = (createEmptyBoard, 1)
   \<and> length (filter spec_full_row one_full_board) = 1
   \<and> valid_board (fst (clearLines one_full_board))"
proof -
  have v: "valid_board one_full_board" by (rule valid_one_full_board)
  have c: "clearLines one_full_board = (createEmptyBoard, 1)" by code_simp
  from clearLines_compacts [OF v] c v show ?thesis by simp
qed

section \<open>Bag randomizer and queue\<close>

lemma length_swap: "length (swap i j bag) = length bag"
  by (simp add: swap_def)

lemma mset_swap_bag: "i < length bag \<Longrightarrow> j < length bag \<Longrightarrow> mset (swap i j bag) = mset bag"
  unfolding swap_def by (rule mset_swap)

lemma length_shuffle: "length (shuffle rnd k i bag) = length bag"
  by (induction i arbitrary: k bag) (simp_all add: Let_def length_swap)

text \<open>A draw in \<open>[0, 1)\<close> gives an index between 0 and \<open>i\<close>.\<close>

lemma draw_in_range:
  assumes "0 \<le> r" "r < 1"
  shows "nat \<lfloor>r * real (i + 1)\<rfloor> \<le> i"
proof -
  have "r * real (i + 1) < real (i + 1)" using assms by simp
  then have "\<lfloor>r * real (i + 1)\<rfloor> < int (i + 1)" by (simp add: floor_less_iff)
  then show ?thesis by simp
qed

lemma mset_shuffle:
  assumes "\<forall>k. 0 \<le> rnd k \<and> rnd k < 1"
  shows "i < length bag \<Longrightarrow> mset (shuffle rnd k i bag) = mset bag"
proof (induction i arbitrary: k bag)
  case 0
  then show ?case by simp
next
  case (Suc i)
  define j where "j = nat \<lfloor>rnd k * real (Suc i + 1)\<rfloor>"
  have "j \<le> Suc i" unfolding j_def using assms draw_in_range by blast
  with Suc.prems have j: "j < length bag" by simp
  have "mset (shuffle rnd (k + 1) i (swap (Suc i) j bag)) = mset (swap (Suc i) j bag)"
    using Suc.prems by (intro Suc.IH) (simp add: length_swap)
  also have "\<dots> = mset bag" using Suc.prems j by (simp add: mset_swap_bag)
  finally show ?case by (simp add: Let_def j_def)
qed

lemma length_generateBag: "length (generateBag rnd) = 7"
  unfolding generateBag_def length_shuffle by (simp add: ALL_TETROMINOES_def)

lemma count_ALL_TETROMINOES: "count (mset ALL_TETROMINOES) t = 1"
  by (cases t) (simp_all add: ALL_TETROMINOES_def)

text \<open>
  C8. Whatever the draws, as long as each is a number in \<open>[0, 1)\<close>, \<open>generateBag\<close>
  returns 7 piece types, and each of the 7 types occurs in it exactly once.
\<close>

theorem generateBag_permutation:
  assumes "\<forall>k. 0 \<le> rnd k \<and> rnd k < 1"
  shows "length (generateBag rnd) = 7
       \<and> mset (generateBag rnd) = mset ALL_TETROMINOES
       \<and> distinct (generateBag rnd)
       \<and> (\<forall>t. count_list (generateBag rnd) t = 1)"
proof -
  have m: "mset (generateBag rnd) = mset ALL_TETROMINOES"
    unfolding generateBag_def by (rule mset_shuffle [OF assms]) (simp add: ALL_TETROMINOES_def)
  have "distinct ALL_TETROMINOES" by (simp add: ALL_TETROMINOES_def)
  with m have d: "distinct (generateBag rnd)" by (metis mset_eq_imp_distinct_iff)
  have "count_list (generateBag rnd) t = 1" for t
    using m count_ALL_TETROMINOES [of t] by (metis count_mset)
  with m d length_generateBag show ?thesis by simp
qed

lemma generateBag_zero:
  "generateBag (\<lambda>k. 0) = [TetJ, TetL, TetO, TetS, TetT, TetZ, TetI]"
  by (simp add: generateBag_def ALL_TETROMINOES_def swap_def numeral_eq_Suc)

theorem generateBag_permutation_witness:
  "generateBag (\<lambda>k. 0) = [TetJ, TetL, TetO, TetS, TetT, TetZ, TetI]
   \<and> distinct (generateBag (\<lambda>k. 0)) \<and> length (generateBag (\<lambda>k. 0)) = 7"
proof -
  have h: "\<forall>k. 0 \<le> (\<lambda>k. 0::real) k \<and> (\<lambda>k. 0::real) k < 1" by simp
  from generateBag_permutation [OF h] generateBag_zero show ?thesis by simp
qed

text \<open>
  C9. The queue of a fresh component holds two bags, 14 types, and a reset leaves 13 of
  its two bags in the queue. A spawn removes at most one type from the queue and leaves
  at least 7 in it, whatever the queue was before.
\<close>

theorem queue_never_dry:
  "length (queue (initialState rnd stored)) = 14
   \<and> 7 \<le> length (queue (spawnPiece rnd forcedType s))
   \<and> length (queue s) \<le> length (queue (spawnPiece rnd forcedType s)) + 1
   \<and> length (queue (resetGame rnd s)) = 13"
proof -
  have reset: "length (queue (resetGame rnd s)) = 13"
  proof -
    have "length (generateBag rnd @ generateBag (after_bag rnd)) = 14"
      by (simp add: length_generateBag)
    then obtain t ts where bag: "generateBag rnd @ generateBag (after_bag rnd) = t # ts"
      and ts: "length ts = 13"
      by (cases "generateBag rnd @ generateBag (after_bag rnd)") auto
    show ?thesis by (simp add: resetGame_def Let_def bag ts)
  qed
  have init: "length (queue (initialState rnd stored)) = 14"
    by (simp add: initialState_def length_generateBag)
  obtain t nextQueue rnd' where pop:
    "(case forcedType of
        Some f \<Rightarrow> (f, queue s, rnd)
      | None \<Rightarrow> (case queue s of q # rest \<Rightarrow> (q, rest, rnd)
                  | [] \<Rightarrow> (generateBag rnd ! 0, [], after_bag rnd))) = (t, nextQueue, rnd')"
    by (metis prod_cases3)
  have popped: "length (queue s) \<le> length nextQueue + 1"
    using pop by (auto split: option.splits list.splits)
  have q: "queue (spawnPiece rnd forcedType s)
             = (if length nextQueue < 7 then nextQueue @ generateBag rnd' else nextQueue)"
    by (simp add: spawnPiece_def Let_def pop)
  have "7 \<le> length (queue (spawnPiece rnd forcedType s))"
    unfolding q by (simp add: length_generateBag)
  moreover have "length (queue s) \<le> length (queue (spawnPiece rnd forcedType s)) + 1"
    unfolding q using popped by simp
  ultimately show ?thesis using init reset by simp
qed

theorem queue_never_dry_witness:
  "length (queue (spawnPiece (\<lambda>k. 0) None (initialState (\<lambda>k. 0) 0))) = 13
   \<and> length (queue (spawnPiece (\<lambda>k. 0) None
        ((initialState (\<lambda>k. 0) 0)\<lparr>queue := [TetI, TetJ, TetL, TetO, TetS, TetT, TetZ]\<rparr>))) = 13"
proof -
  have ab: "after_bag (\<lambda>k. 0::real) = (\<lambda>k. 0)" by (simp add: after_bag_def)
  have q0: "queue (initialState (\<lambda>k. 0) 0)
      = [TetJ, TetL, TetO, TetS, TetT, TetZ, TetI, TetJ, TetL, TetO, TetS, TetT, TetZ, TetI]"
    by (simp add: initialState_def ab generateBag_zero)
  have a: "length (queue (spawnPiece (\<lambda>k. 0) None (initialState (\<lambda>k. 0) 0))) = 13"
    by (simp add: spawnPiece_def Let_def q0)
  have b: "length (queue (spawnPiece (\<lambda>k. 0) None
        ((initialState (\<lambda>k. 0) 0)\<lparr>queue := [TetI, TetJ, TetL, TetO, TetS, TetT, TetZ]\<rparr>))) = 13"
    by (simp add: spawnPiece_def Let_def length_generateBag)
  from queue_never_dry [where rnd = "\<lambda>k. 0" and stored = 0 and forcedType = None
      and s = "initialState (\<lambda>k. 0) 0"] a b show ?thesis by simp
qed

section \<open>Lock, top-out and scoring\<close>

lemma row_cells_snd: "c \<in> set (row_cells y x vs) \<Longrightarrow> snd c = y"
  by (induction vs arbitrary: x) (auto split: if_splits)

lemma matrix_cells_snd: "c \<in> set (matrix_cells y m) \<Longrightarrow> y \<le> snd c"
proof (induction m arbitrary: y)
  case Nil
  then show ?case by simp
next
  case (Cons r rs)
  then show ?case by (fastforce dest: row_cells_snd)
qed

text \<open>
  The loops visit the rows of a matrix from the top, so the first occupied cell they
  meet is in the highest occupied row.
\<close>

lemma matrix_cells_first:
  "matrix_cells y m = c # cs \<Longrightarrow> c' \<in> set cs \<Longrightarrow> snd c \<le> snd c'"
proof (induction m arbitrary: y)
  case Nil
  then show ?case by simp
next
  case (Cons r rs)
  show ?case
  proof (cases "row_cells y 0 r")
    case Nil
    with Cons.prems have "matrix_cells (y + 1) rs = c # cs" by simp
    from Cons.IH [OF this Cons.prems(2)] show ?thesis .
  next
    case (Cons d ds)
    with Cons.prems(1) have c: "c = d" and cs: "cs = ds @ matrix_cells (y + 1) rs" by simp_all
    have "snd c = y" using row_cells_snd [of d y 0 r] Cons c by simp
    moreover have "y \<le> snd c'"
    proof (cases "c' \<in> set ds")
      case True
      then have "c' \<in> set (row_cells y 0 r)" using Cons by simp
      then show ?thesis by (simp add: row_cells_snd)
    next
      case False
      with Cons.prems(2) cs have "c' \<in> set (matrix_cells (y + 1) rs)" by simp
      from matrix_cells_snd [OF this] show ?thesis by simp
    qed
    ultimately show ?thesis by simp
  qed
qed

lemma lock_cells_top_out:
  assumes "(x, y) \<in> set (occupied matrix)" "pos_y (position piece) + y < 0"
  shows "lock_cells next piece (occupied matrix) = Inr None"
proof (cases "occupied matrix")
  case Nil
  with assms show ?thesis by simp
next
  case (Cons c cs)
  obtain cx cy where c: "c = (cx, cy)" by (cases c)
  have "cy \<le> y"
  proof (cases "(x, y) = c")
    case True
    then show ?thesis by (simp add: c)
  next
    case False
    with assms(1) Cons have "(x, y) \<in> set cs" by simp
    from matrix_cells_first [OF Cons [unfolded occupied_def] this] show ?thesis by (simp add: c)
  qed
  with assms(2) have "pos_y (position piece) + cy < 0" by simp
  then show ?thesis by (simp add: Cons c)
qed

lemma board_spawnPiece [simp]: "board (spawnPiece rnd f s) = board s"
  by (simp add: spawnPiece_def Let_def split: prod.splits)

lemma status_spawnPiece [simp]: "status (spawnPiece rnd f s) = status s"
  by (simp add: spawnPiece_def Let_def split: prod.splits)

lemma gameOverRef_spawnPiece [simp]: "gameOverRef (spawnPiece rnd f s) = gameOverRef s"
  by (simp add: spawnPiece_def Let_def split: prod.splits)

lemma stats_spawnPiece: "stats (spawnPiece rnd f s) = (stats s)\<lparr>pieces := pieces (stats s) + 1\<rparr>"
  by (simp add: spawnPiece_def Let_def split: prod.splits)

lemma active_spawnPiece: "\<exists>t. active (spawnPiece rnd f s) = Some (spawned t)"
  by (auto simp: spawnPiece_def Let_def split: prod.splits)

text \<open>What \<open>finalizeLock\<close> comes to: the board of the updater, no active piece but the spawned one, the combo at 0.\<close>

lemma finalizeLock_eq:
  assumes "lock_board (board s) piece = Inr (b', k, t)"
  shows "finalizeLock rnd piece s =
     Inr ((spawnPiece rnd None
             (s\<lparr>active := None, stats := (stats s)\<lparr>combo := 0\<rparr>, lockTimeout := False\<rparr>))
          \<lparr>board := b'\<rparr>)"
  by (simp add: finalizeLock_def Let_def assms)

text \<open>
  C2. The claim is that the lock of a piece with a cell at a negative row sets the status
  to \<open>gameover\<close> and leaves the board as it was. \<open>finalizeLock\<close> tests
  \<open>triggeredGameOver\<close> before the board updater that assigns it has run. When the
  shape of the piece has an occupied cell whose row on the board is negative, the board
  is the one before the lock, for every board, but the status and \<open>gameOverRef\<close> are
  unchanged too, and a next piece is spawned.
\<close>

theorem finalizeLock_top_out_keeps_status:
  assumes "arr_get (getRotations (ptype piece)) (rotation piece) = Some matrix"
    and "y < length matrix" and "x < length (matrix ! y)" and "matrix ! y ! x \<noteq> 0"
    and "pos_y (position piece) + int y < 0"
  shows "\<exists>s'. finalizeLock rnd piece s = Inr s' \<and> board s' = board s
              \<and> status s' = status s \<and> gameOverRef s' = gameOverRef s
              \<and> (\<exists>t. active s' = Some (spawned t))"
proof -
  have "(int x, int y) \<in> set (occupied matrix)"
    unfolding set_occupied using assms(2-4) by blast
  from lock_cells_top_out [OF this assms(5)]
  have "lock_board (board s) piece = Inr (board s, 0, True)"
    by (simp add: lock_board_def Let_def assms(1))
  from finalizeLock_eq [OF this, of rnd] active_spawnPiece show ?thesis by simp
qed

definition top_piece :: ActivePiece where
  "top_piece = \<lparr>ptype = TetI, rotation = 1, position = \<lparr>pos_x = 3, pos_y = -1\<rparr>\<rparr>"

definition playing_state :: GameState where
  "playing_state = (render (startGame (\<lambda>k. 0) (initialState (\<lambda>k. 0) 0)))"

text \<open>
  A board with column 5 filled from row 3 down: an upright I piece at the top of that
  column cannot descend, and its first cell is at row -1.
\<close>

definition stacked_board :: board where
  "stacked_board =
     replicate 3 (replicate 10 Empty)
     @ replicate 17 (replicate 5 Empty
                     @ [Filled \<lparr>cell_type = TetI, cell_ghost = None, cell_fading = None\<rparr>]
                     @ replicate 4 Empty)"

definition stacked_state :: GameState where
  "stacked_state = playing_state\<lparr>board := stacked_board, active := Some top_piece,
                                 activeRef := Some top_piece\<rparr>"

lemma top_piece_rests:
  "canPlace stacked_board top_piece \<lparr>pos_x = 0, pos_y = 1\<rparr> 0 = Inr False"
  by code_simp

theorem finalizeLock_top_out_keeps_status_witness:
  "canPlace (board stacked_state) top_piece \<lparr>pos_x = 0, pos_y = 1\<rparr> 0 = Inr False
   \<and> status stacked_state = playing
   \<and> (\<exists>s'. finalizeLock (\<lambda>k. 0) top_piece stacked_state = Inr s' \<and> status s' = playing
           \<and> board s' = stacked_board \<and> gameOverRef s' = False)"
proof -
  let ?m = "[[0,0,1,0],[0,0,1,0],[0,0,1,0],[0,0,1,0::nat]]"
  have h1: "arr_get (getRotations (ptype top_piece)) (rotation top_piece) = Some ?m"
    by (simp add: top_piece_def arr_get_def getRotations_def TETROMINOES_def)
  have h2: "0 < length ?m" "2 < length (?m ! 0)" "?m ! 0 ! 2 \<noteq> 0" by simp_all
  have h3: "pos_y (position top_piece) + int 0 < 0" by (simp add: top_piece_def)
  have b: "board stacked_state = stacked_board" by (simp add: stacked_state_def)
  have st: "status stacked_state = playing"
    by (simp add: stacked_state_def playing_state_def render_def startGame_def resetGame_def Let_def
        split: prod.splits)
  have g: "gameOverRef stacked_state = False"
    by (simp add: stacked_state_def playing_state_def render_def startGame_def resetGame_def Let_def
        split: prod.splits)
  from finalizeLock_top_out_keeps_status [OF h1 h2 h3, of "\<lambda>k. 0" stacked_state] b st g top_piece_rests
  show ?thesis by auto
qed

text \<open>The scoring rule, in the words of the specification.\<close>

definition spec_base :: "int \<Rightarrow> int" where
  "spec_base k =
     (if k = 1 then 100 else if k = 2 then 300 else if k = 3 then 500
      else if k = 4 then 800 else k * 200)"

definition spec_comboBonus :: "int \<Rightarrow> int" where
  "spec_comboBonus comboStreak = (if comboStreak > 1 then (comboStreak - 1) * 50 else 0)"

lemma points_eq_spec_base:
  assumes "1 \<le> k"
  shows "(case arr_get lineScores k of Some p \<Rightarrow> p | None \<Rightarrow> k * 200) = spec_base k"
proof -
  consider "k = 1" | "k = 2" | "k = 3" | "k = 4" | "5 \<le> k" using assms by linarith
  then show ?thesis
    by cases (simp_all add: arr_get_def lineScores_def spec_base_def)
qed

lemma stats_addMessage [simp]: "stats (addMessage text s) = stats s"
  by (simp add: addMessage_def)

lemma stats_updateForClear:
  assumes "1 \<le> k"
  shows "stats (updateForClear k s) = (stats s)\<lparr>
           score := score (stats s) + spec_base k * (level (stats s) + 1)
                    + spec_comboBonus (combo (stats s) + 1) * (level (stats s) + 1),
           level := (lines (stats s) + k) div 10,
           lines := lines (stats s) + k,
           combo := combo (stats s) + 1,
           maxCombo := max (maxCombo (stats s)) (combo (stats s) + 1),
           cleared := map (\<lambda>(idx, val). if int idx = k - 1 then val + 1 else val)
                          (enumerate 0 (cleared (stats s))),
           tetrisCount := (if k = 4 then tetrisCount (stats s) + 1 else tetrisCount (stats s))\<rparr>"
  using assms points_eq_spec_base [OF assms]
  by (simp add: updateForClear_def Let_def spec_comboBonus_def COMBO_BONUS_def LINES_PER_LEVEL_def)


text \<open>
  C4. The claim is that a lock that clears \<open>k \<ge> 1\<close> lines adds
  \<open>base k * (level + 1) + comboBonus * (level + 1)\<close> to the score and updates level,
  lines, combo and the tetris counter. \<open>updateForClear\<close> does that, but
  \<open>finalizeLock\<close> tests \<open>linesCleared\<close> before the board updater that assigns it has run
  and never calls it: whatever number \<open>k\<close> of lines the board updater clears, the lock
  leaves score, level, lines and tetris counter as they were and sets the combo to 0.
\<close>

theorem finalizeLock_ignores_cleared_lines:
  assumes "lock_board (board s) piece = Inr (b', k, t)"
  shows "(\<exists>s'. finalizeLock rnd piece s = Inr s' \<and> board s' = b'
            \<and> score (stats s') = score (stats s) \<and> combo (stats s') = 0
            \<and> lines (stats s') = lines (stats s) \<and> level (stats s') = level (stats s)
            \<and> tetrisCount (stats s') = tetrisCount (stats s))
       \<and> (1 \<le> k \<longrightarrow>
            score (stats (updateForClear k s)) =
              score (stats s) + spec_base k * (level (stats s) + 1)
              + spec_comboBonus (combo (stats s) + 1) * (level (stats s) + 1)
          \<and> lines (stats (updateForClear k s)) = lines (stats s) + k
          \<and> level (stats (updateForClear k s)) = (lines (stats s) + k) div 10
          \<and> tetrisCount (stats (updateForClear k s)) =
              (if k = 4 then tetrisCount (stats s) + 1 else tetrisCount (stats s)))"
proof -
  have "\<exists>s'. finalizeLock rnd piece s = Inr s' \<and> board s' = b'
            \<and> score (stats s') = score (stats s) \<and> combo (stats s') = 0
            \<and> lines (stats s') = lines (stats s) \<and> level (stats s') = level (stats s)
            \<and> tetrisCount (stats s') = tetrisCount (stats s)"
    unfolding finalizeLock_eq [OF assms] by (simp add: stats_spawnPiece)
  moreover have "1 \<le> k \<longrightarrow>
            score (stats (updateForClear k s)) =
              score (stats s) + spec_base k * (level (stats s) + 1)
              + spec_comboBonus (combo (stats s) + 1) * (level (stats s) + 1)
          \<and> lines (stats (updateForClear k s)) = lines (stats s) + k
          \<and> level (stats (updateForClear k s)) = (lines (stats s) + k) div 10
          \<and> tetrisCount (stats (updateForClear k s)) =
              (if k = 4 then tetrisCount (stats s) + 1 else tetrisCount (stats s))"
    by (simp add: stats_updateForClear)
  ultimately show ?thesis by blast
qed

text \<open>
  A lock that clears one line: the bottom row is full but for its last column, and a
  vertical I piece comes to rest in that column.
\<close>

definition nearly_full_board :: board where
  "nearly_full_board =
     replicate 19 (replicate 10 Empty)
     @ [replicate 9 (Filled \<lparr>cell_type = TetO, cell_ghost = None, cell_fading = None\<rparr>) @ [Empty]]"

definition resting_piece :: ActivePiece where
  "resting_piece = \<lparr>ptype = TetI, rotation = 1, position = \<lparr>pos_x = 7, pos_y = 16\<rparr>\<rparr>"

definition locked_board :: board where
  "locked_board =
     replicate 17 (replicate 10 Empty)
     @ replicate 3 (replicate 9 Empty
                    @ [Filled \<lparr>cell_type = TetI, cell_ghost = None, cell_fading = None\<rparr>])"

lemma lock_board_nearly_full:
  "lock_board nearly_full_board resting_piece = Inr (locked_board, 1, False)"
  by code_simp

theorem finalizeLock_ignores_cleared_lines_witness:
  "lock_board (board (playing_state\<lparr>board := nearly_full_board\<rparr>)) resting_piece
     = Inr (locked_board, 1, False)
   \<and> score (stats (playing_state\<lparr>board := nearly_full_board\<rparr>)) = 0
   \<and> (\<exists>s'. finalizeLock (\<lambda>k. 0) resting_piece (playing_state\<lparr>board := nearly_full_board\<rparr>) = Inr s'
          \<and> board s' = locked_board \<and> score (stats s') = 0 \<and> lines (stats s') = 0
          \<and> combo (stats s') = 0)
   \<and> score (stats (updateForClear 1 (playing_state\<lparr>board := nearly_full_board\<rparr>))) = 100"
proof -
  let ?s = "playing_state\<lparr>board := nearly_full_board\<rparr>"
  have h: "lock_board (board ?s) resting_piece = Inr (locked_board, 1, False)"
    by (simp add: lock_board_nearly_full)
  have st: "stats ?s = createInitialStats\<lparr>pieces := 1\<rparr>"
    by (simp add: playing_state_def render_def startGame_def resetGame_def Let_def split: prod.splits)
  from finalizeLock_ignores_cleared_lines [OF h, of "\<lambda>k. 0"] h
  show ?thesis
    by (auto simp: st createInitialStats_def spec_base_def spec_comboBonus_def)
qed

section \<open>Rotation with kicks\<close>

lemma rotate_kicks_first:
  assumes "i < length ks" "canPlace (board s) a (ks ! i) dir = Inr True"
    and "\<forall>j < i. canPlace (board s) a (ks ! j) dir = Inr False"
  shows "rotate_kicks s a dir nextRotation ks =
     Inr (s\<lparr>active := map_option (\<lambda>prev. (translate prev (ks ! i))\<lparr>rotation := nextRotation\<rparr>) (active s),
           lockTimeout := False\<rparr>)"
  using assms
proof (induction ks arbitrary: i)
  case Nil
  then show ?case by simp
next
  case (Cons k ks)
  show ?case
  proof (cases i)
    case 0
    with Cons.prems show ?thesis by simp
  next
    case (Suc i')
    with Cons.prems have "canPlace (board s) a k dir = Inr False" by auto
    moreover have "rotate_kicks s a dir nextRotation ks =
      Inr (s\<lparr>active := map_option (\<lambda>prev. (translate prev (ks ! i'))\<lparr>rotation := nextRotation\<rparr>) (active s),
            lockTimeout := False\<rparr>)"
      using Cons.prems Suc by (intro Cons.IH) auto
    ultimately show ?thesis by (simp add: Suc)
  qed
qed

lemma rotate_kicks_none:
  assumes "\<forall>j < length ks. canPlace (board s) a (ks ! j) dir = Inr False"
  shows "rotate_kicks s a dir nextRotation ks = Inr s"
  using assms
proof (induction ks)
  case Nil
  then show ?case by simp
next
  case (Cons k ks)
  from Cons.prems have "canPlace (board s) a k dir = Inr False" by auto
  moreover from Cons.prems have "\<forall>j < length ks. canPlace (board s) a (ks ! j) dir = Inr False" by auto
  ultimately show ?case using Cons.IH by simp
qed

lemma rotate_kicks_total:
  assumes "\<forall>k \<in> set ks. \<exists>free. canPlace (board s) a k dir = Inr free"
  shows "\<exists>s'. rotate_kicks s a dir nextRotation ks = Inr s'"
  using assms by (induction ks) auto

lemma canPlace_total:
  assumes "valid_board b"
    and "0 \<le> rotation piece + rotationShift + int (length (getRotations (ptype piece)))"
  shows "\<exists>free. canPlace b piece offset rotationShift = Inr free"
proof -
  define rotations where "rotations = getRotations (ptype piece)"
  define n where "n = int (length rotations)"
  have n: "0 < n" unfolding n_def rotations_def using length_getRotations_pos by simp
  have k: "js_rem (rotation piece + rotationShift + n) n = (rotation piece + rotationShift) mod n"
    using assms(2) n js_rem_nonneg [of "rotation piece + rotationShift + n" n]
    by (simp add: n_def rotations_def)
  have rng: "0 \<le> (rotation piece + rotationShift) mod n" "(rotation piece + rotationShift) mod n < n"
    using n by simp_all
  obtain m where m: "arr_get rotations (js_rem (rotation piece + rotationShift + n) n) = Some m"
    using rng unfolding k by (simp add: arr_get_def n_def)
  have dims: "length b = 20" "\<forall>row \<in> set b. length row = 10"
    using assms(1) by (simp_all add: valid_board_def)
  show ?thesis
    using m canPlace_cells_eq [OF dims]
    by (simp add: canPlace_def Let_def rotations_def n_def)
qed

text \<open>
  C5. With an active piece in a playing state on a 20 x 10 board, and \<open>dir\<close> one of -1
  and +1, \<open>rotatePiece\<close> takes the first of the kicks (0,0), (-1,0), (1,0), (0,-1),
  (0,1) at which \<open>canPlace\<close> accepts the piece with the rotation shifted by \<open>dir\<close>: the
  rotation becomes \<open>(rotation + dir) mod n\<close>, the position moves by that kick. When
  \<open>canPlace\<close> rejects all five, the state is unchanged.
\<close>

theorem rotatePiece_first_kick:
  assumes "active s = Some a" and "status s = playing" and "valid_board (board s)"
    and "dir = 1 \<or> dir = -1"
    and "0 \<le> rotation a" and "rotation a < int (length (getRotations (ptype a)))"
  shows "kicks = [\<lparr>pos_x = 0, pos_y = 0\<rparr>, \<lparr>pos_x = -1, pos_y = 0\<rparr>, \<lparr>pos_x = 1, pos_y = 0\<rparr>,
                  \<lparr>pos_x = 0, pos_y = -1\<rparr>, \<lparr>pos_x = 0, pos_y = 1\<rparr>]
    \<and> (\<forall>i < 5. canPlace (board s) a (kicks ! i) dir = Inr True
           \<and> (\<forall>j < i. canPlace (board s) a (kicks ! j) dir = Inr False)
         \<longrightarrow> rotatePiece dir s =
               Inr (s\<lparr>active := Some \<lparr>ptype = ptype a,
                        rotation = (rotation a + dir) mod int (length (getRotations (ptype a))),
                        position = \<lparr>pos_x = pos_x (position a) + pos_x (kicks ! i),
                                    pos_y = pos_y (position a) + pos_y (kicks ! i)\<rparr>\<rparr>,
                     lockTimeout := False\<rparr>))
    \<and> ((\<forall>i < 5. canPlace (board s) a (kicks ! i) dir = Inr False) \<longrightarrow> rotatePiece dir s = Inr s)
    \<and> (\<forall>i < 5. \<exists>free. canPlace (board s) a (kicks ! i) dir = Inr free)"
proof -
  define n where "n = int (length (getRotations (ptype a)))"
  have n: "0 < n" unfolding n_def using length_getRotations_pos by simp
  have nonneg: "0 \<le> rotation a + dir + n" using assms(4,5) n by auto
  have next_rot: "js_rem (rotation a + dir + n) n = (rotation a + dir) mod n"
    using js_rem_nonneg [OF nonneg n] by simp
  have rot: "rotatePiece dir s = rotate_kicks s a dir ((rotation a + dir) mod n) kicks"
    using assms(1,2) next_rot by (simp add: rotatePiece_def Let_def n_def)
  have len: "length kicks = 5" by (simp add: kicks_def)
  have total: "\<exists>free. canPlace (board s) a k dir = Inr free" for k
    using canPlace_total [OF assms(3)] nonneg unfolding n_def by blast
  have a_eq: "a = \<lparr>ptype = ptype a, rotation = rotation a, position = position a\<rparr>" by simp
  have first: "rotatePiece dir s =
               Inr (s\<lparr>active := Some \<lparr>ptype = ptype a,
                        rotation = (rotation a + dir) mod n,
                        position = \<lparr>pos_x = pos_x (position a) + pos_x (kicks ! i),
                                    pos_y = pos_y (position a) + pos_y (kicks ! i)\<rparr>\<rparr>,
                     lockTimeout := False\<rparr>)"
    if "i < 5" "canPlace (board s) a (kicks ! i) dir = Inr True"
      "\<forall>j < i. canPlace (board s) a (kicks ! j) dir = Inr False" for i
  proof -
    have "rotate_kicks s a dir ((rotation a + dir) mod n) kicks =
       Inr (s\<lparr>active := map_option (\<lambda>prev. (translate prev (kicks ! i))\<lparr>rotation := (rotation a + dir) mod n\<rparr>) (active s),
             lockTimeout := False\<rparr>)"
      using that len by (intro rotate_kicks_first) simp_all
    moreover have "(translate a (kicks ! i))\<lparr>rotation := (rotation a + dir) mod n\<rparr> =
        \<lparr>ptype = ptype a, rotation = (rotation a + dir) mod n,
         position = \<lparr>pos_x = pos_x (position a) + pos_x (kicks ! i),
                     pos_y = pos_y (position a) + pos_y (kicks ! i)\<rparr>\<rparr>"
      by (simp add: translate_def)
    ultimately show ?thesis unfolding rot by (simp add: assms(1))
  qed
  have none: "rotatePiece dir s = Inr s"
    if "\<forall>i < 5. canPlace (board s) a (kicks ! i) dir = Inr False"
    unfolding rot using that len by (intro rotate_kicks_none) simp
  show ?thesis
    using first none total by (simp add: kicks_def [symmetric] n_def)
qed

text \<open>
  A T piece upright against the left wall: turning it clockwise fails in place and one
  column to the left, and succeeds one column to the right.
\<close>

definition wall_piece :: ActivePiece where
  "wall_piece = \<lparr>ptype = TetT, rotation = 1, position = \<lparr>pos_x = -1, pos_y = 5\<rparr>\<rparr>"

definition wall_state :: GameState where
  "wall_state = playing_state\<lparr>active := Some wall_piece\<rparr>"

lemma board_playing_state: "board playing_state = createEmptyBoard"
  by (simp add: playing_state_def render_def startGame_def resetGame_def Let_def split: prod.splits)

lemma status_playing_state: "status playing_state = playing"
  by (simp add: playing_state_def render_def startGame_def resetGame_def Let_def split: prod.splits)

theorem rotatePiece_first_kick_witness:
  "rotatePiece 1 wall_state =
     Inr (wall_state\<lparr>active := Some \<lparr>ptype = TetT, rotation = 2, position = \<lparr>pos_x = 0, pos_y = 5\<rparr>\<rparr>,
                     lockTimeout := False\<rparr>)
   \<and> canPlace createEmptyBoard wall_piece \<lparr>pos_x = 0, pos_y = 0\<rparr> 1 = Inr False
   \<and> canPlace createEmptyBoard wall_piece \<lparr>pos_x = -1, pos_y = 0\<rparr> 1 = Inr False
   \<and> canPlace createEmptyBoard wall_piece \<lparr>pos_x = 1, pos_y = 0\<rparr> 1 = Inr True"
proof -
  have h1: "active wall_state = Some wall_piece" by (simp add: wall_state_def)
  have h2: "status wall_state = playing" by (simp add: wall_state_def status_playing_state)
  have b: "board wall_state = createEmptyBoard" by (simp add: wall_state_def board_playing_state)
  have h3: "valid_board (board wall_state)" unfolding b by (rule valid_board_empty)
  have h4: "(1::int) = 1 \<or> (1::int) = -1" by simp
  have h5: "0 \<le> rotation wall_piece" by (simp add: wall_piece_def)
  have h6: "rotation wall_piece < int (length (getRotations (ptype wall_piece)))"
    by (simp add: wall_piece_def getRotations_def TETROMINOES_def)
  have k0: "canPlace createEmptyBoard wall_piece \<lparr>pos_x = 0, pos_y = 0\<rparr> 1 = Inr False"
    by code_simp
  have k1: "canPlace createEmptyBoard wall_piece \<lparr>pos_x = -1, pos_y = 0\<rparr> 1 = Inr False"
    by code_simp
  have k2: "canPlace createEmptyBoard wall_piece \<lparr>pos_x = 1, pos_y = 0\<rparr> 1 = Inr True"
    by code_simp
  have before: "\<forall>j < 2. canPlace (board wall_state) wall_piece (kicks ! j) 1 = Inr False"
    unfolding b using k0 k1 by (simp add: kicks_def less_Suc_eq numeral_2_eq_2)
  have at: "canPlace (board wall_state) wall_piece (kicks ! 2) 1 = Inr True"
    unfolding b using k2 by (simp add: kicks_def)
  have n: "int (length (getRotations (ptype wall_piece))) = 4"
    by (simp add: wall_piece_def getRotations_def TETROMINOES_def)
  have "rotatePiece 1 wall_state =
     Inr (wall_state\<lparr>active := Some \<lparr>ptype = ptype wall_piece,
            rotation = (rotation wall_piece + 1) mod int (length (getRotations (ptype wall_piece))),
            position = \<lparr>pos_x = pos_x (position wall_piece) + pos_x (kicks ! 2),
                        pos_y = pos_y (position wall_piece) + pos_y (kicks ! 2)\<rparr>\<rparr>,
          lockTimeout := False\<rparr>)"
  proof (rule rotatePiece_first_kick [OF h1 h2 h3 h4 h5 h6, THEN conjunct2, THEN conjunct1, rule_format, of 2])
    show "(2::nat) < 5" by simp
    show "canPlace (board wall_state) wall_piece (kicks ! 2) 1 = Inr True \<and>
          (\<forall>j<2. canPlace (board wall_state) wall_piece (kicks ! j) 1 = Inr False)"
      using at before by blast
  qed
  then show ?thesis using k0 k1 k2 unfolding n
    by (simp add: wall_piece_def kicks_def)
qed

section \<open>What a lock writes\<close>

text \<open>A piece whose rotation index is one of its type and whose cells are inside the walls and above the floor.\<close>

definition piece_in_bounds :: "ActivePiece \<Rightarrow> bool" where
  "piece_in_bounds p \<longleftrightarrow>
     0 \<le> rotation p \<and> rotation p < int (length (getRotations (ptype p))) \<and>
     (\<forall>(x, y) \<in> set (occupied (getRotations (ptype p) ! nat (rotation p))).
        0 \<le> pos_x (position p) + x \<and> pos_x (position p) + x < 10 \<and> pos_y (position p) + y < 20)"

lemma canPlace_cells_in_bounds:
  "canPlace_cells b p off cs = Inr True \<Longrightarrow> (x, y) \<in> set cs
   \<Longrightarrow> 0 \<le> pos_x (position p) + x + pos_x off \<and> pos_x (position p) + x + pos_x off < 10
     \<and> pos_y (position p) + y + pos_y off < 20"
proof (induction cs)
  case Nil
  then show ?case by simp
next
  case (Cons c cs)
  obtain cx cy where c: "c = (cx, cy)" by (cases c)
  from Cons.prems(1)
  have here: "0 \<le> pos_x (position p) + cx + pos_x off" "pos_x (position p) + cx + pos_x off < 10"
      "pos_y (position p) + cy + pos_y off < 20"
    and rest: "canPlace_cells b p off cs = Inr True"
    unfolding c
    by (auto simp: Let_def BOARD_HEIGHT_def BOARD_WIDTH_def split: if_splits option.splits)
  from Cons.prems(2) consider "(x, y) = (cx, cy)" | "(x, y) \<in> set cs" by (auto simp: c)
  then show ?case
  proof cases
    case 1
    with here show ?thesis by simp
  next
    case 2
    with Cons.IH rest show ?thesis by simp
  qed
qed

lemma canPlace_True_in_bounds:
  assumes "canPlace b p off shift = Inr True"
    and "0 \<le> rotation p + shift + int (length (getRotations (ptype p)))"
  shows "piece_in_bounds
           ((translate p off)\<lparr>rotation := (rotation p + shift) mod int (length (getRotations (ptype p)))\<rparr>)"
proof -
  define n where "n = int (length (getRotations (ptype p)))"
  define r where "r = (rotation p + shift) mod n"
  have n: "0 < n" unfolding n_def using length_getRotations_pos by simp
  have k: "js_rem (rotation p + shift + n) n = r"
    using assms(2) n js_rem_nonneg [of "rotation p + shift + n" n] by (simp add: n_def r_def)
  have rng: "0 \<le> r" "r < n" using n by (simp_all add: r_def)
  have cells: "canPlace_cells b p off (occupied (getRotations (ptype p) ! nat r)) = Inr True"
    using assms(1) rng k
    by (simp add: canPlace_def Let_def arr_get_def n_def [symmetric])
  show ?thesis
    unfolding piece_in_bounds_def n_def [symmetric] r_def [symmetric]
    using rng canPlace_cells_in_bounds [OF cells]
    by (auto simp: translate_def n_def add.assoc add.commute add.left_commute)
qed

lemma spread_valid_row: "Hole \<notin> set row \<Longrightarrow> spread row = row"
  unfolding spread_def by (induction row) auto

lemma map_spread_valid: "valid_board b \<Longrightarrow> map spread b = b"
  by (simp add: valid_board_def spread_valid_row map_idI)

lemma valid_board_update:
  assumes "valid_board b" "length row = 10" "Hole \<notin> set row"
  shows "valid_board (b[i := row])"
  using assms unfolding valid_board_def
  by (auto dest!: set_update_subset_insert [THEN subsetD])

lemma clearLines_valid:
  assumes "valid_board b"
  shows "valid_board (fst (clearLines b))"
proof -
  define kept where "kept = filter (\<lambda>row. \<exists>cell \<in> set row. cell = Empty) b"
  have len: "length b = 20" using assms by (simp add: valid_board_def)
  have le: "length kept \<le> 20" unfolding kept_def using length_filter_le [of _ b] len by simp
  have rows: "\<forall>row \<in> set kept. length row = 10 \<and> Hole \<notin> set row"
    using assms by (auto simp: kept_def valid_board_def)
  have cl: "clearLines b =
      (if BOARD_HEIGHT - int (length kept) = 0 then (b, 0)
       else (replicate (nat (BOARD_HEIGHT - int (length kept))) (replicate (nat BOARD_WIDTH) Empty) @ kept,
             BOARD_HEIGHT - int (length kept)))"
    unfolding clearLines_def Let_def kept_def ..
  show ?thesis
  proof (cases "BOARD_HEIGHT - int (length kept) = 0")
    case True
    then show ?thesis unfolding cl using assms by simp
  next
    case False
    have "valid_board (replicate (nat (BOARD_HEIGHT - int (length kept))) (replicate (nat BOARD_WIDTH) Empty) @ kept)"
      using le rows by (auto simp: valid_board_def BOARD_HEIGHT_def BOARD_WIDTH_def)
    with False show ?thesis unfolding cl by simp
  qed
qed

lemma translate_in_bounds:
  assumes "piece_in_bounds a" "canPlace b a off 0 = Inr True"
  shows "piece_in_bounds (translate a off)"
proof -
  define n where "n = int (length (getRotations (ptype a)))"
  from assms(1) have r: "0 \<le> rotation a" "rotation a < n" by (simp_all add: piece_in_bounds_def n_def)
  then have "0 \<le> rotation a + 0 + n" by simp
  from canPlace_True_in_bounds [OF assms(2) this [unfolded n_def]]
  have "piece_in_bounds ((translate a off)\<lparr>rotation := rotation a mod n\<rparr>)" by (simp add: n_def)
  moreover have "rotation a mod n = rotation a" using r by simp
  moreover have "(translate a off)\<lparr>rotation := rotation a\<rparr> = translate a off"
    by (simp add: translate_def)
  ultimately show ?thesis by simp
qed

lemma canPlace_total_in_bounds:
  assumes "valid_board b" "piece_in_bounds a"
  shows "\<exists>free. canPlace b a off 0 = Inr free"
  using assms(2) by (intro canPlace_total [OF assms(1)]) (simp add: piece_in_bounds_def)

text \<open>
  The board after the lock of a piece, in the words of the specification: every cell
  that an occupied cell of the shape covers holds the type of the piece, every other
  cell is as before.
\<close>

definition spec_covers :: "ActivePiece \<Rightarrow> int \<Rightarrow> int \<Rightarrow> bool" where
  "spec_covers p boardX boardY \<longleftrightarrow>
     (let matrix = getRotations (ptype p) ! nat (rotation p);
          x = boardX - pos_x (position p);
          y = boardY - pos_y (position p)
      in 0 \<le> y \<and> 0 \<le> x \<and> nat y < length matrix \<and> nat x < length (matrix ! nat y)
         \<and> matrix ! nat y ! nat x \<noteq> 0)"

definition spec_locked :: "board \<Rightarrow> ActivePiece \<Rightarrow> board" where
  "spec_locked b p =
     map (\<lambda>y. map (\<lambda>x. if spec_covers p (int x) (int y)
                         then Filled \<lparr>cell_type = ptype p, cell_ghost = None, cell_fading = None\<rparr>
                         else b ! y ! x) [0..<10]) [0..<20]"

lemma spec_covers_occupied:
  "spec_covers p boardX boardY \<longleftrightarrow>
     (boardX - pos_x (position p), boardY - pos_y (position p))
       \<in> set (occupied (getRotations (ptype p) ! nat (rotation p)))"
proof -
  define m where "m = getRotations (ptype p) ! nat (rotation p)"
  define x where "x = boardX - pos_x (position p)"
  define y where "y = boardY - pos_y (position p)"
  have "(x, y) \<in> set (occupied m) \<longleftrightarrow>
      (0 \<le> y \<and> 0 \<le> x \<and> nat y < length m \<and> nat x < length (m ! nat y) \<and> m ! nat y ! nat x \<noteq> 0)"
  proof
    assume "(x, y) \<in> set (occupied m)"
    then obtain i j where "x = int i" "y = int j" "j < length m" "i < length (m ! j)" "m ! j ! i \<noteq> 0"
      unfolding set_occupied by blast
    then show "0 \<le> y \<and> 0 \<le> x \<and> nat y < length m \<and> nat x < length (m ! nat y) \<and> m ! nat y ! nat x \<noteq> 0"
      by simp
  next
    assume a: "0 \<le> y \<and> 0 \<le> x \<and> nat y < length m \<and> nat x < length (m ! nat y) \<and> m ! nat y ! nat x \<noteq> 0"
    then have "(x, y) = (int (nat x), int (nat y))" by simp
    with a show "(x, y) \<in> set (occupied m)" unfolding set_occupied by blast
  qed
  then show ?thesis by (simp add: spec_covers_def Let_def m_def x_def y_def)
qed

text \<open>The loops write every cell of the list into the copy, and nothing else.\<close>

lemma lock_cells_written:
  "valid_board next \<Longrightarrow>
   \<forall>(x, y) \<in> set cs. 0 \<le> pos_x (position p) + x \<and> pos_x (position p) + x < 10
                       \<and> 0 \<le> pos_y (position p) + y \<and> pos_y (position p) + y < 20 \<Longrightarrow>
   \<exists>w. lock_cells next p cs = Inr (Some w) \<and> valid_board w
      \<and> (\<forall>i < 20. \<forall>j < 10. w ! i ! j =
            (if (int j - pos_x (position p), int i - pos_y (position p)) \<in> set cs
             then Filled \<lparr>cell_type = ptype p, cell_ghost = None, cell_fading = None\<rparr>
             else next ! i ! j))"
proof (induction cs arbitrary: "next")
  case Nil
  then show ?case by simp
next
  case (Cons c cs)
  obtain x y where c: "c = (x, y)" by (cases c)
  define boardX where "boardX = pos_x (position p) + x"
  define boardY where "boardY = pos_y (position p) + y"
  define v where "v = Filled \<lparr>cell_type = ptype p, cell_ghost = None, cell_fading = None\<rparr>"
  from Cons.prems(2) have bx: "0 \<le> boardX" "boardX < 10" and by1: "0 \<le> boardY" "boardY < 20"
    by (auto simp: c boardX_def boardY_def)
  define row where "row = next ! nat boardY"
  have len: "length next = 20" using Cons.prems(1) by (simp add: valid_board_def)
  have "row \<in> set next" unfolding row_def using by1 len by simp
  then have row: "length row = 10" "Hole \<notin> set row"
    using Cons.prems(1) by (auto simp: valid_board_def)
  have get: "arr_get next boardY = Some row"
    using by1 len by (simp add: arr_get_def row_def)
  have set: "arr_set row boardX v = row[nat boardX := v]"
    using bx row(1) by (simp add: arr_set_def)
  define next' where "next' = next[nat boardY := row[nat boardX := v]]"
  have "Hole \<notin> set (row[nat boardX := v])"
    using row(2) set_update_subset_insert [of row "nat boardX" v] by (auto simp: v_def)
  then have valid': "valid_board next'"
    unfolding next'_def using Cons.prems(1) row(1) by (intro valid_board_update) simp_all
  have step: "lock_cells next p (c # cs) = lock_cells next' p cs"
    using by1 get set
    by (simp add: c boardX_def [symmetric] boardY_def [symmetric] v_def [symmetric] next'_def)
  from Cons.prems(2)
  have rest: "\<forall>(x, y) \<in> set cs. 0 \<le> pos_x (position p) + x \<and> pos_x (position p) + x < 10
                       \<and> 0 \<le> pos_y (position p) + y \<and> pos_y (position p) + y < 20" by simp
  from Cons.IH [OF valid' rest]
  obtain w where w: "lock_cells next' p cs = Inr (Some w)" "valid_board w"
    "\<forall>i < 20. \<forall>j < 10. w ! i ! j =
       (if (int j - pos_x (position p), int i - pos_y (position p)) \<in> set cs then v else next' ! i ! j)"
    unfolding v_def by blast
  have cell: "next' ! i ! j = (if (int j - pos_x (position p), int i - pos_y (position p)) = (x, y)
                               then v else next ! i ! j)"
    if "i < 20" "j < 10" for i j
  proof (cases "i = nat boardY")
    case True
    have "next' ! i = row[nat boardX := v]" using True len by1 by (simp add: next'_def)
    moreover have "(int j - pos_x (position p), int i - pos_y (position p)) = (x, y) \<longleftrightarrow> j = nat boardX"
      using True bx by1 by (auto simp: boardX_def boardY_def)
    ultimately show ?thesis using that row(1) True by (simp add: row_def nth_list_update)
  next
    case False
    then have "next' ! i = next ! i" by (simp add: next'_def)
    moreover have "(int j - pos_x (position p), int i - pos_y (position p)) \<noteq> (x, y)"
      using False by1 by (auto simp: boardY_def)
    ultimately show ?thesis by auto
  qed
  have "\<forall>i < 20. \<forall>j < 10. w ! i ! j =
       (if (int j - pos_x (position p), int i - pos_y (position p)) \<in> set (c # cs) then v
        else next ! i ! j)"
    using w(3) cell by (auto simp: c)
  with w(1,2) step show ?case unfolding v_def by simp
qed

lemma valid_board_eqI:
  assumes "valid_board w"
    and "\<forall>i < 20. \<forall>j < 10. w ! i ! j = f i j"
  shows "w = map (\<lambda>y. map (\<lambda>x. f y x) [0..<10]) [0..<20]"
proof (rule nth_equalityI)
  show "length w = length (map (\<lambda>y. map (\<lambda>x. f y x) [0..<10]) [0..<20])"
    using assms(1) by (simp add: valid_board_def)
next
  fix i assume "i < length w"
  then have i: "i < 20" using assms(1) by (simp add: valid_board_def)
  then have "w ! i \<in> set w" using assms(1) by (simp add: valid_board_def)
  then have len: "length (w ! i) = 10" using assms(1) by (simp add: valid_board_def)
  have "w ! i = map (\<lambda>x. f i x) [0..<10]"
    by (rule nth_equalityI) (use len i assms(2) in simp_all)
  then show "w ! i = map (\<lambda>y. map (\<lambda>x. f y x) [0..<10]) [0..<20] ! i" using i by simp
qed

text \<open>
  The board updater on a 20 x 10 board and a piece in bounds: it returns the board
  unchanged when a cell of the piece is above the board, and else the board with the
  piece written, with its full rows cleared.
\<close>

lemma lock_board_eq:
  assumes "valid_board b" "piece_in_bounds p"
  shows "lock_board b p =
     (if \<exists>boardX boardY. spec_covers p boardX boardY \<and> boardY < 0 then Inr (b, 0, True)
      else Inr (fst (clearLines (spec_locked b p)), snd (clearLines (spec_locked b p)), False))"
proof -
  define matrix where "matrix = getRotations (ptype p) ! nat (rotation p)"
  have get: "arr_get (getRotations (ptype p)) (rotation p) = Some matrix"
    using assms(2) by (simp add: piece_in_bounds_def arr_get_def matrix_def)
  have bounds: "\<forall>(x, y) \<in> set (occupied matrix). 0 \<le> pos_x (position p) + x
      \<and> pos_x (position p) + x < 10 \<and> pos_y (position p) + y < 20"
    using assms(2) by (simp add: piece_in_bounds_def matrix_def)
  have covers: "spec_covers p boardX boardY \<longleftrightarrow>
      (boardX - pos_x (position p), boardY - pos_y (position p)) \<in> set (occupied matrix)"
    for boardX boardY unfolding matrix_def by (rule spec_covers_occupied)
  show ?thesis
  proof (cases "\<exists>boardX boardY. spec_covers p boardX boardY \<and> boardY < 0")
    case True
    then obtain boardX boardY where "spec_covers p boardX boardY" "boardY < 0" by blast
    then have "(boardX - pos_x (position p), boardY - pos_y (position p)) \<in> set (occupied matrix)"
      "pos_y (position p) + (boardY - pos_y (position p)) < 0"
      by (simp_all add: covers)
    from lock_cells_top_out [OF this] True show ?thesis
      by (simp add: lock_board_def Let_def get)
  next
    case False
    have rows: "0 \<le> pos_y (position p) + y" if "(x, y) \<in> set (occupied matrix)" for x y
    proof (rule ccontr)
      assume neg: "\<not> 0 \<le> pos_y (position p) + y"
      have "spec_covers p (pos_x (position p) + x) (pos_y (position p) + y)"
        using that by (simp add: covers)
      with False have "\<not> pos_y (position p) + y < 0" by blast
      with neg show False by simp
    qed
    have all: "\<forall>(x, y) \<in> set (occupied matrix). 0 \<le> pos_x (position p) + x
        \<and> pos_x (position p) + x < 10
        \<and> 0 \<le> pos_y (position p) + y \<and> pos_y (position p) + y < 20"
      using bounds rows by auto
    from lock_cells_written [OF assms(1) all]
    obtain w where w: "lock_cells b p (occupied matrix) = Inr (Some w)" "valid_board w"
      "\<forall>i < 20. \<forall>j < 10. w ! i ! j =
         (if (int j - pos_x (position p), int i - pos_y (position p)) \<in> set (occupied matrix)
          then Filled \<lparr>cell_type = ptype p, cell_ghost = None, cell_fading = None\<rparr>
          else b ! i ! j)"
      by blast
    have "w = spec_locked b p"
      unfolding spec_locked_def
      by (rule valid_board_eqI [OF w(2)]) (use w(3) in \<open>simp add: covers\<close>)
    with w(1) False show ?thesis
      by (simp add: lock_board_def Let_def get map_spread_valid [OF assms(1)])
  qed
qed

lemma valid_spec_locked:
  assumes "valid_board b"
  shows "valid_board (spec_locked b p)"
proof -
  have cell: "Hole \<noteq> b ! y ! x" if "y < 20" "x < 10" for x y
  proof -
    have "b ! y \<in> set b" using that(1) assms by (simp add: valid_board_def)
    then have "length (b ! y) = 10" "Hole \<notin> set (b ! y)" using assms by (auto simp: valid_board_def)
    then show ?thesis using that(2) by (metis nth_mem)
  qed
  show ?thesis unfolding valid_board_def spec_locked_def using cell by fastforce
qed

section \<open>Hard drop\<close>

declare hardDrop_loop.simps [simp del]

text \<open>The piece \<open>d\<close> rows further down.\<close>

definition descended :: "ActivePiece \<Rightarrow> nat \<Rightarrow> ActivePiece" where
  "descended a d = a\<lparr>position := \<lparr>pos_x = pos_x (position a), pos_y = pos_y (position a) + int d\<rparr>\<rparr>"

lemma descended_0: "descended a 0 = a"
  by (simp add: descended_def)

lemma descended_Suc:
  "descended (a\<lparr>position := \<lparr>pos_x = pos_x (position a), pos_y = pos_y (position a) + 1\<rparr>\<rparr>) d
     = descended a (Suc d)"
  by (simp add: descended_def)

lemma hardDrop_loop_rests:
  "valid_board b \<Longrightarrow> 0 \<le> rotation g + int (length (getRotations (ptype g))) \<Longrightarrow>
    \<exists>d. hardDrop_loop b g n0 = Inr (descended g d, n0 + int d)
       \<and> (\<forall>i < d. canPlace b (descended g i) \<lparr>pos_x = 0, pos_y = 1\<rparr> 0 = Inr True)
       \<and> canPlace b (descended g d) \<lparr>pos_x = 0, pos_y = 1\<rparr> 0 = Inr False"
proof (induction b g n0 rule: hardDrop_loop.induct)
  case (1 b ghost distance)
  let ?off = "\<lparr>pos_x = 0, pos_y = 1\<rparr>"
  let ?g' = "ghost\<lparr>position := \<lparr>pos_x = pos_x (position ghost), pos_y = pos_y (position ghost) + 1\<rparr>\<rparr>"
  from canPlace_total [OF "1.prems"(1), of ghost 0 ?off] "1.prems"(2)
  obtain free where free: "canPlace b ghost ?off 0 = Inr free" by auto
  show ?case
  proof (cases free)
    case False
    with free have "hardDrop_loop b ghost distance = Inr (ghost, distance)"
      by (subst hardDrop_loop.simps) simp
    with free False show ?thesis
      by (intro exI [of _ 0]) (simp add: descended_0)
  next
    case True
    have "0 \<le> rotation ?g' + int (length (getRotations (ptype ?g')))" using "1.prems"(2) by simp
    from "1.IH" [OF free True "1.prems"(1) this]
    obtain d where d: "hardDrop_loop b ?g' (distance + 1) = Inr (descended ?g' d, distance + 1 + int d)"
      "\<forall>i < d. canPlace b (descended ?g' i) ?off 0 = Inr True"
      "canPlace b (descended ?g' d) ?off 0 = Inr False"
      by blast
    have loop: "hardDrop_loop b ghost distance = hardDrop_loop b ?g' (distance + 1)"
      using free True by (subst hardDrop_loop.simps) simp
    have "\<forall>i < Suc d. canPlace b (descended ghost i) ?off 0 = Inr True"
    proof (intro allI impI)
      fix i assume "i < Suc d"
      show "canPlace b (descended ghost i) ?off 0 = Inr True"
      proof (cases i)
        case 0
        with free True show ?thesis by (simp add: descended_0)
      next
        case (Suc j)
        with \<open>i < Suc d\<close> d(2) show ?thesis by (simp add: descended_Suc)
      qed
    qed
    with d loop show ?thesis
      by (intro exI [of _ "Suc d"]) (simp add: descended_Suc)
  qed
qed

lemma descended_in_bounds:
  assumes "piece_in_bounds a"
    and "\<forall>i < d. canPlace b (descended a i) \<lparr>pos_x = 0, pos_y = 1\<rparr> 0 = Inr True"
  shows "piece_in_bounds (descended a d)"
  using assms(2)
proof (induction d)
  case 0
  then show ?case using assms(1) by (simp add: descended_0)
next
  case (Suc d)
  then have prev: "piece_in_bounds (descended a d)" by simp
  from Suc.prems have "canPlace b (descended a d) \<lparr>pos_x = 0, pos_y = 1\<rparr> 0 = Inr True" by simp
  from translate_in_bounds [OF prev this]
  have "piece_in_bounds (translate (descended a d) \<lparr>pos_x = 0, pos_y = 1\<rparr>)" .
  moreover have "translate (descended a d) \<lparr>pos_x = 0, pos_y = 1\<rparr> = descended a (Suc d)"
    by (simp add: translate_def descended_def)
  ultimately show ?case by simp
qed


lemma active_playing_state: "active playing_state = Some (spawned TetJ)"
  by (simp add: playing_state_def render_def startGame_def resetGame_def Let_def generateBag_zero)

lemma hardDrop_loop_empty:
  "hardDrop_loop createEmptyBoard (spawned TetJ) 0 = Inr (descended (spawned TetJ) 18, 18)"
  by code_simp




section \<open>Hold\<close>

lemma holdPiece_result:
  assumes "active s = Some a" "status s = playing" "\<not> hasHeld s"
  shows "hasHeld (holdPiece rnd s) = False
       \<and> status (holdPiece rnd s) = playing
       \<and> hold (holdPiece rnd s) = Some (ptype a)
       \<and> board (holdPiece rnd s) = board s
       \<and> stats (holdPiece rnd s) = (stats s)\<lparr>pieces := pieces (stats s) + 1\<rparr>
       \<and> active (holdPiece rnd s) =
           Some (spawned (case hold s of
                            Some h \<Rightarrow> h
                          | None \<Rightarrow> (case queue s of q # rest \<Rightarrow> q | [] \<Rightarrow> generateBag rnd ! 0)))"
  using assms
  by (auto simp: holdPiece_def Let_def spawnPiece_def addMessage_def
           split: option.splits list.splits)

lemma hasHeld_playing_state: "hasHeld playing_state = False"
  by (simp add: playing_state_def render_def startGame_def resetGame_def Let_def split: prod.splits)

lemma queue_playing_state:
  "queue playing_state = [TetL, TetO, TetS, TetT, TetZ, TetI, TetJ, TetL, TetO, TetS, TetT, TetZ, TetI]"
  by (simp add: playing_state_def render_def startGame_def resetGame_def Let_def generateBag_zero
      after_bag_def)

lemma hold_playing_state: "hold playing_state = None"
  by (simp add: playing_state_def render_def startGame_def resetGame_def Let_def split: prod.splits)

lemma holdPiece_twice:
  "active (holdPiece (\<lambda>k. 0) playing_state) = Some (spawned TetL)
   \<and> hasHeld (holdPiece (\<lambda>k. 0) playing_state) = False
   \<and> hold (holdPiece (\<lambda>k. 0) playing_state) = Some TetJ
   \<and> active (holdPiece (\<lambda>k. 0) (holdPiece (\<lambda>k. 0) playing_state)) = Some (spawned TetJ)
   \<and> hold (holdPiece (\<lambda>k. 0) (holdPiece (\<lambda>k. 0) playing_state)) = Some TetL"
proof -
  have h: "\<not> hasHeld playing_state" by (simp add: hasHeld_playing_state)
  have tJ: "ptype (spawned TetJ) = TetJ" and tL: "ptype (spawned TetL) = TetL"
    by (simp_all add: spawned_def Let_def)
  from holdPiece_result [OF active_playing_state status_playing_state h, of "\<lambda>k. 0"]
  have first: "hasHeld (holdPiece (\<lambda>k. 0) playing_state) = False"
    "status (holdPiece (\<lambda>k. 0) playing_state) = playing"
    "hold (holdPiece (\<lambda>k. 0) playing_state) = Some TetJ"
    "active (holdPiece (\<lambda>k. 0) playing_state) = Some (spawned TetL)"
    by (simp_all add: tJ hold_playing_state queue_playing_state)
  from first(1) have nh: "\<not> hasHeld (holdPiece (\<lambda>k. 0) playing_state)" by simp
  from holdPiece_result [OF first(4) first(2) nh, of "\<lambda>k. 0"]
  have "hold (holdPiece (\<lambda>k. 0) (holdPiece (\<lambda>k. 0) playing_state)) = Some TetL"
    "active (holdPiece (\<lambda>k. 0) (holdPiece (\<lambda>k. 0) playing_state)) = Some (spawned TetJ)"
    by (simp_all add: tL first(3))
  with first show ?thesis by simp
qed

text \<open>
  C6. The claim is that a second hold without a lock in between changes nothing.
  \<open>holdPiece\<close> calls \<open>setHasHeld(true)\<close>, and the queue updater of the \<open>spawnPiece\<close> it
  calls next calls \<open>setHasHeld(false)\<close> after it. The hold of the first piece of a game,
  J, stores J and makes the next piece, L, active, as the claim says, but leaves
  \<open>hasHeld\<close> false: a second hold passes the guard and swaps the two pieces back, J
  active again and L in the hold slot.
\<close>

theorem holdPiece_twice_swaps_back:
  "active playing_state = Some (spawned TetJ) \<and> status playing_state = playing
   \<and> hasHeld playing_state = False \<and> hold playing_state = None
   \<and> active (holdPiece (\<lambda>k. 0) playing_state) = Some (spawned TetL)
   \<and> hasHeld (holdPiece (\<lambda>k. 0) playing_state) = False
   \<and> hold (holdPiece (\<lambda>k. 0) playing_state) = Some TetJ
   \<and> active (holdPiece (\<lambda>k. 0) (holdPiece (\<lambda>k. 0) playing_state)) = Some (spawned TetJ)
   \<and> hold (holdPiece (\<lambda>k. 0) (holdPiece (\<lambda>k. 0) playing_state)) = Some TetL"
proof -
  have a: "active playing_state = Some (spawned TetJ)" by (rule active_playing_state)
  have p: "status playing_state = playing" by (rule status_playing_state)
  have h: "\<not> hasHeld playing_state" by (simp add: hasHeld_playing_state)
  from holdPiece_twice a p h hold_playing_state show ?thesis by simp
qed

text \<open>The second hold is not a no-op.\<close>

theorem holdPiece_twice_swaps_back_witness:
  "holdPiece (\<lambda>k. 0) (holdPiece (\<lambda>k. 0) playing_state) \<noteq> holdPiece (\<lambda>k. 0) playing_state"
proof
  assume eq: "holdPiece (\<lambda>k. 0) (holdPiece (\<lambda>k. 0) playing_state) = holdPiece (\<lambda>k. 0) playing_state"
  from holdPiece_twice_swaps_back
  have "hold (holdPiece (\<lambda>k. 0) (holdPiece (\<lambda>k. 0) playing_state)) = Some TetL"
    and "hold (holdPiece (\<lambda>k. 0) playing_state) = Some TetJ" by simp_all
  with eq show False by simp
qed

section \<open>Score over a session\<close>

text \<open>
  One event of the component: a callback runs, then the component renders. \<open>Drop soft\<close>
  is the drop loop or the soft-drop key, \<open>LockTimer captured\<close> the lock-delay timer
  armed in a render whose board was \<open>captured\<close>.
\<close>

datatype command =
  Move int | Rotate int | Drop bool | HardDrop | Hold | LockTimer board
  | TogglePause | PlayTimeTick | Start

fun step :: "(nat \<Rightarrow> real) \<Rightarrow> command \<Rightarrow> GameState \<Rightarrow> error + GameState" where
  "step rnd (Move dir) s = map_sum id render (movePiece dir s)"
| "step rnd (Rotate dir) s = map_sum id render (rotatePiece dir s)"
| "step rnd (Drop soft) s = map_sum id render (dropPiece rnd soft False s)"
| "step rnd HardDrop s = map_sum id render (hardDrop rnd s)"
| "step rnd Hold s = Inr (render (holdPiece rnd s))"
| "step rnd (LockTimer captured) s = map_sum id render (lockTimeoutCallback rnd captured s)"
| "step rnd TogglePause s = Inr (render (togglePause s))"
| "step rnd PlayTimeTick s = Inr (render (tickPlayTime s))"
| "step rnd Start s = Inr (render (startGame rnd s))"

fun run :: "((nat \<Rightarrow> real) \<times> command) list \<Rightarrow> GameState \<Rightarrow> error + GameState" where
  "run [] s = Inr s"
| "run ((rnd, c) # cs) s = (case step rnd c s of Inl e \<Rightarrow> Inl e | Inr s' \<Rightarrow> run cs s')"

text \<open>The commands the component can receive: a direction is -1 or +1, a captured board is a board.\<close>

fun command_ok :: "command \<Rightarrow> bool" where
  "command_ok (Move dir) = (dir = 1 \<or> dir = -1)"
| "command_ok (Rotate dir) = (dir = 1 \<or> dir = -1)"
| "command_ok (LockTimer captured) = valid_board captured"
| "command_ok c = True"

text \<open>
  What every state of a session satisfies: the board is 20 x 10, the active piece is in
  bounds, and score, level and line count are not negative. After a render the refs
  agree with the state.
\<close>

definition state_ok :: "GameState \<Rightarrow> bool" where
  "state_ok s \<longleftrightarrow>
     valid_board (board s) \<and>
     (\<forall>p. active s = Some p \<longrightarrow> piece_in_bounds p) \<and>
     0 \<le> score (stats s) \<and> 0 \<le> level (stats s) \<and> 0 \<le> lines (stats s)"

definition engine_inv :: "GameState \<Rightarrow> bool" where
  "engine_inv s \<longleftrightarrow> state_ok s \<and> activeRef s = active s \<and> statusRef s = status s"

lemma spawned_in_bounds: "piece_in_bounds (spawned t)"
  by (cases t)
     (simp_all add: piece_in_bounds_def spawned_def Let_def getRotations_def TETROMINOES_def
        occupied_def BOARD_WIDTH_def)

lemma engine_inv_render: "state_ok s \<Longrightarrow> engine_inv (render s)"
  by (simp add: engine_inv_def state_ok_def render_def)

lemma stats_render [simp]: "stats (render s) = stats s"
  by (simp add: render_def)

lemma board_updateForClear [simp]: "board (updateForClear k s) = board s"
  by (simp add: updateForClear_def Let_def addMessage_def)

lemma spec_base_nonneg: "1 \<le> k \<Longrightarrow> 0 \<le> spec_base k"
  by (simp add: spec_base_def)

lemma spec_comboBonus_nonneg: "0 \<le> spec_comboBonus c"
  by (simp add: spec_comboBonus_def)

lemma state_ok_spawnPiece:
  assumes "valid_board (board s)" "0 \<le> score (stats s)" "0 \<le> level (stats s)" "0 \<le> lines (stats s)"
  shows "state_ok (spawnPiece rnd f s)"
proof -
  obtain t where "active (spawnPiece rnd f s) = Some (spawned t)" using active_spawnPiece by blast
  then show ?thesis using assms spawned_in_bounds [of t]
    by (simp add: state_ok_def stats_spawnPiece)
qed

lemma updateForClear_stats_ok:
  assumes "1 \<le> k" "0 \<le> score (stats s)" "0 \<le> level (stats s)" "0 \<le> lines (stats s)"
  shows "score (stats s) \<le> score (stats (updateForClear k s))
       \<and> 0 \<le> level (stats (updateForClear k s)) \<and> 0 \<le> lines (stats (updateForClear k s))"
proof -
  have "0 \<le> spec_base k * (level (stats s) + 1)"
    using spec_base_nonneg [OF assms(1)] assms(3) by simp
  moreover have "0 \<le> spec_comboBonus (combo (stats s) + 1) * (level (stats s) + 1)"
    using spec_comboBonus_nonneg assms(3) by simp
  moreover have "0 \<le> (lines (stats s) + k) div 10"
    using assms(1,4) by (simp add: pos_imp_zdiv_nonneg_iff)
  ultimately show ?thesis using assms(1,4)
    by (simp add: stats_updateForClear [OF assms(1)])
qed

lemma finalizeLock_ok:
  assumes "state_ok s" "piece_in_bounds p"
  shows "\<exists>s'. finalizeLock rnd p s = Inr s' \<and> state_ok s' \<and> score (stats s') = score (stats s)"
proof -
  from assms(1) have b: "valid_board (board s)" and st: "0 \<le> score (stats s)"
    "0 \<le> level (stats s)" "0 \<le> lines (stats s)" by (simp_all add: state_ok_def)
  define b' where "b' =
      (if \<exists>boardX boardY. spec_covers p boardX boardY \<and> boardY < 0 then board s
       else fst (clearLines (spec_locked (board s) p)))"
  have "\<exists>k t. lock_board (board s) p = Inr (b', k, t)"
    unfolding lock_board_eq [OF b assms(2)] b'_def
    by (cases "\<exists>boardX boardY. spec_covers p boardX boardY \<and> boardY < 0") auto
  then obtain k t where lb: "lock_board (board s) p = Inr (b', k, t)" by blast
  have vb': "valid_board b'"
    unfolding b'_def using b clearLines_valid [OF valid_spec_locked [OF b]] by simp
  define s0 where "s0 = spawnPiece rnd None
      (s\<lparr>active := None, stats := (stats s)\<lparr>combo := 0\<rparr>, lockTimeout := False\<rparr>)"
  have fin: "finalizeLock rnd p s = Inr (s0\<lparr>board := b'\<rparr>)"
    unfolding finalizeLock_eq [OF lb] s0_def ..
  have "state_ok s0" unfolding s0_def using b st by (intro state_ok_spawnPiece) simp_all
  then have "state_ok (s0\<lparr>board := b'\<rparr>)" using vb' by (simp add: state_ok_def)
  moreover have "score (stats (s0\<lparr>board := b'\<rparr>)) = score (stats s)"
    by (simp add: s0_def stats_spawnPiece)
  ultimately show ?thesis unfolding fin by blast
qed

lemma movePiece_ok:
  assumes "state_ok s"
  shows "\<exists>s'. movePiece dir s = Inr s' \<and> state_ok s' \<and> stats s' = stats s"
proof (cases "active s")
  case None
  then show ?thesis using assms by (simp add: movePiece_def)
next
  case (Some a)
  with assms have a: "piece_in_bounds a" and b: "valid_board (board s)" by (simp_all add: state_ok_def)
  from canPlace_total_in_bounds [OF b a]
  obtain free where free: "canPlace (board s) a \<lparr>pos_x = dir, pos_y = 0\<rparr> 0 = Inr free" by blast
  show ?thesis
  proof (cases "status s = playing \<and> free")
    case True
    with free have "piece_in_bounds (translate a \<lparr>pos_x = dir, pos_y = 0\<rparr>)"
      using translate_in_bounds [OF a] by simp
    with True free Some assms show ?thesis
      by (simp add: movePiece_def state_ok_def)
  next
    case False
    with free Some assms show ?thesis by (auto simp: movePiece_def)
  qed
qed

lemma dropPiece_ok:
  assumes "state_ok s"
  shows "\<exists>s'. dropPiece rnd soft False s = Inr s' \<and> state_ok s' \<and> score (stats s) \<le> score (stats s')"
proof (cases "active s")
  case None
  then show ?thesis using assms by (simp add: dropPiece_def)
next
  case (Some a)
  with assms have a: "piece_in_bounds a" and b: "valid_board (board s)" by (simp_all add: state_ok_def)
  from canPlace_total_in_bounds [OF b a]
  obtain free where free: "canPlace (board s) a \<lparr>pos_x = 0, pos_y = 1\<rparr> 0 = Inr free" by blast
  show ?thesis
  proof (cases "status s = playing \<and> free")
    case True
    with free have "piece_in_bounds (translate a \<lparr>pos_x = 0, pos_y = 1\<rparr>)"
      using translate_in_bounds [OF a] by simp
    with True free Some assms show ?thesis
      by (simp add: dropPiece_def state_ok_def Let_def DROP_SCORE_def)
  next
    case False
    with free Some assms show ?thesis by (auto simp: dropPiece_def Let_def state_ok_def)
  qed
qed

lemma rotate_kicks_ok:
  assumes "state_ok s" "active s = Some a" "dir = 1 \<or> dir = -1"
  shows "\<exists>s'. rotate_kicks s a dir ((rotation a + dir) mod int (length (getRotations (ptype a)))) ks = Inr s'
            \<and> state_ok s' \<and> stats s' = stats s"
proof (induction ks)
  case Nil
  then show ?case using assms(1) by simp
next
  case (Cons kick ks)
  define n where "n = int (length (getRotations (ptype a)))"
  from assms(1,2) have a: "piece_in_bounds a" and b: "valid_board (board s)"
    by (simp_all add: state_ok_def)
  from a have "0 \<le> rotation a" by (simp add: piece_in_bounds_def)
  moreover have "0 < n" unfolding n_def using length_getRotations_pos by simp
  ultimately have nonneg: "0 \<le> rotation a + dir + n" using assms(3) by auto
  from canPlace_total [OF b nonneg [unfolded n_def]]
  obtain free where free: "canPlace (board s) a kick dir = Inr free" by blast
  show ?case
  proof (cases free)
    case True
    from True free have "canPlace (board s) a kick dir = Inr True" by simp
    from canPlace_True_in_bounds [OF this nonneg [unfolded n_def]]
    have "piece_in_bounds ((translate a kick)\<lparr>rotation := (rotation a + dir) mod n\<rparr>)"
      by (simp add: n_def)
    with True free assms(1,2) show ?thesis
      by (simp add: state_ok_def n_def)
  next
    case False
    with free Cons.IH show ?thesis by simp
  qed
qed

lemma rotatePiece_ok:
  assumes "state_ok s" "dir = 1 \<or> dir = -1"
  shows "\<exists>s'. rotatePiece dir s = Inr s' \<and> state_ok s' \<and> stats s' = stats s"
proof (cases "active s")
  case None
  then show ?thesis using assms(1) by (simp add: rotatePiece_def)
next
  case (Some a)
  define n where "n = int (length (getRotations (ptype a)))"
  from assms(1) Some have "0 \<le> rotation a" by (simp add: state_ok_def piece_in_bounds_def)
  moreover have n: "0 < n" unfolding n_def using length_getRotations_pos by simp
  ultimately have nonneg: "0 \<le> rotation a + dir + n" using assms(2) by auto
  have next_rot: "js_rem (rotation a + dir + n) n = (rotation a + dir) mod n"
    using js_rem_nonneg [OF nonneg n] by simp
  show ?thesis
  proof (cases "status s = playing")
    case True
    then have "rotatePiece dir s = rotate_kicks s a dir ((rotation a + dir) mod n) kicks"
      using Some next_rot by (simp add: rotatePiece_def Let_def n_def)
    with rotate_kicks_ok [OF assms(1) Some assms(2), of kicks] show ?thesis by (simp add: n_def)
  next
    case False
    with Some assms(1) show ?thesis by (simp add: rotatePiece_def)
  qed
qed

lemma hardDrop_ok:
  assumes "state_ok s"
  shows "\<exists>s'. hardDrop rnd s = Inr s' \<and> state_ok s' \<and> score (stats s) \<le> score (stats s')"
proof (cases "active s")
  case None
  then show ?thesis using assms by (simp add: hardDrop_def)
next
  case (Some a)
  show ?thesis
  proof (cases "status s = playing")
    case False
    with Some assms show ?thesis by (simp add: hardDrop_def)
  next
    case True
    from assms Some have a: "piece_in_bounds a" and b: "valid_board (board s)"
      by (simp_all add: state_ok_def)
    from a have "0 \<le> rotation a + int (length (getRotations (ptype a)))"
      by (simp add: piece_in_bounds_def)
    from hardDrop_loop_rests [OF b this, of 0]
    obtain d where d: "hardDrop_loop (board s) a 0 = Inr (descended a d, int d)"
      "\<forall>i < d. canPlace (board s) (descended a i) \<lparr>pos_x = 0, pos_y = 1\<rparr> 0 = Inr True"
      by auto
    define s2 where "s2 = addMessage ''Hyper Drop!''
        (s\<lparr>stats := (stats s)\<lparr>score := score (stats s) + int d * DROP_SCORE * 3,
                               hardDrops := hardDrops (stats s) + 1\<rparr>\<rparr>)"
    have hd: "hardDrop rnd s = finalizeLock rnd (descended a d) s2"
      by (simp add: hardDrop_def Some True d(1) Let_def s2_def)
    have ok2: "state_ok s2" and sc: "score (stats s) \<le> score (stats s2)"
      using assms by (simp_all add: s2_def state_ok_def addMessage_def DROP_SCORE_def)
    from finalizeLock_ok [OF ok2 descended_in_bounds [OF a d(2)], of rnd] sc
    show ?thesis unfolding hd by force
  qed
qed

lemma holdPiece_ok:
  assumes "state_ok s"
  shows "state_ok (holdPiece rnd s) \<and> score (stats (holdPiece rnd s)) = score (stats s)"
proof (cases "\<exists>a. active s = Some a \<and> status s = playing \<and> \<not> hasHeld s")
  case False
  then show ?thesis using assms by (auto simp: holdPiece_def split: option.splits)
next
  case True
  then obtain a where a: "active s = Some a" "status s = playing" "\<not> hasHeld s" by blast
  from holdPiece_result [OF a, of rnd] show ?thesis
    using assms spawned_in_bounds by (simp add: state_ok_def)
qed

lemma lockTimeoutCallback_ok:
  assumes "engine_inv s" "valid_board captured"
  shows "\<exists>s'. lockTimeoutCallback rnd captured s = Inr s' \<and> state_ok s'
            \<and> score (stats s) \<le> score (stats s')"
proof (cases "activeRef s")
  case None
  then show ?thesis using assms(1) by (simp add: lockTimeoutCallback_def engine_inv_def)
next
  case (Some current)
  from assms(1) have ok: "state_ok s" and ref: "active s = Some current"
    using Some by (simp_all add: engine_inv_def)
  then have c: "piece_in_bounds current" by (simp add: state_ok_def)
  from canPlace_total_in_bounds [OF assms(2) c]
  obtain free where free: "canPlace captured current \<lparr>pos_x = 0, pos_y = 1\<rparr> 0 = Inr free" by blast
  show ?thesis
  proof (cases "statusRef s = playing \<and> \<not> free")
    case True
    with free Some finalizeLock_ok [OF ok c, of rnd] show ?thesis
      by (force simp: lockTimeoutCallback_def)
  next
    case False
    with free Some ok show ?thesis by (auto simp: lockTimeoutCallback_def)
  qed
qed

lemma startGame_ok: "state_ok (startGame rnd s) \<and> score (stats (startGame rnd s)) = 0"
proof -
  have "\<exists>t. active (startGame rnd s) = Some (spawned t)"
    by (auto simp: startGame_def resetGame_def Let_def split: prod.splits)
  then obtain t where "active (startGame rnd s) = Some (spawned t)" by blast
  moreover have "board (startGame rnd s) = createEmptyBoard"
    and "stats (startGame rnd s) = createInitialStats\<lparr>pieces := 1\<rparr>"
    by (simp_all add: startGame_def resetGame_def Let_def split: prod.splits)
  ultimately show ?thesis
    using spawned_in_bounds [of t] valid_board_empty
    by (simp add: state_ok_def createInitialStats_def)
qed

lemma step_inv:
  assumes "engine_inv s" "command_ok c"
  shows "\<exists>s'. step rnd c s = Inr s' \<and> engine_inv s'
       \<and> (if c = Start then score (stats s') = 0 else score (stats s) \<le> score (stats s'))"
proof -
  from assms(1) have ok: "state_ok s" by (simp add: engine_inv_def)
  show ?thesis
  proof (cases c)
    case (Move dir)
    with movePiece_ok [OF ok, of dir] show ?thesis by (auto simp: engine_inv_render)
  next
    case (Rotate dir)
    with assms(2) rotatePiece_ok [OF ok, of dir] show ?thesis by (auto simp: engine_inv_render)
  next
    case (Drop soft)
    with dropPiece_ok [OF ok, of rnd soft] show ?thesis by (auto simp: engine_inv_render)
  next
    case HardDrop
    with hardDrop_ok [OF ok, of rnd] show ?thesis by (auto simp: engine_inv_render)
  next
    case Hold
    with holdPiece_ok [OF ok, of rnd] show ?thesis by (simp add: engine_inv_render)
  next
    case (LockTimer captured)
    with assms(2) lockTimeoutCallback_ok [OF assms(1), of captured rnd] show ?thesis
      by (auto simp: engine_inv_render)
  next
    case TogglePause
    have "state_ok (togglePause s)" using ok by (simp add: togglePause_def addMessage_def state_ok_def)
    with TogglePause show ?thesis by (simp add: engine_inv_render togglePause_def)
  next
    case PlayTimeTick
    have "state_ok (tickPlayTime s)" using ok by (simp add: tickPlayTime_def state_ok_def)
    with PlayTimeTick show ?thesis by (simp add: engine_inv_render tickPlayTime_def)
  next
    case Start
    with startGame_ok [of rnd s] show ?thesis by (simp add: engine_inv_render)
  qed
qed

lemma run_inv:
  "engine_inv s \<Longrightarrow> \<forall>(rnd, c) \<in> set cs. command_ok c
   \<Longrightarrow> \<exists>s'. run cs s = Inr s' \<and> engine_inv s'"
proof (induction cs arbitrary: s)
  case Nil
  then show ?case by simp
next
  case (Cons rc cs)
  obtain rnd c where rc: "rc = (rnd, c)" by (cases rc)
  from Cons.prems(2) have "command_ok c" by (simp add: rc)
  from step_inv [OF Cons.prems(1) this, of rnd]
  obtain s1 where s1: "step rnd c s = Inr s1" "engine_inv s1" by blast
  from Cons.prems(2) have "\<forall>(rnd, c) \<in> set cs. command_ok c" by simp
  from Cons.IH [OF s1(2) this] s1(1) show ?case by (simp add: rc)
qed

lemma engine_inv_initial: "engine_inv (initialState rnd stored)"
  using valid_board_empty
  by (simp add: engine_inv_def state_ok_def initialState_def createInitialStats_def)

text \<open>
  C10. In every state that a sequence of events reaches from the state of a fresh
  component, the score is not negative, and every further event but a start returns a
  state whose score is at least the score before; a start sets the score to 0. No
  event ends in an exception. \<open>updateForClear\<close>, which no event reaches, does not lower
  the score either.
\<close>

theorem score_never_decreases:
  assumes "\<forall>(rnd, c) \<in> set cs. command_ok c" and "command_ok c"
  shows "score (stats (initialState rnd0 stored)) = 0
     \<and> (\<exists>s. run cs (initialState rnd0 stored) = Inr s \<and> 0 \<le> score (stats s)
           \<and> (\<exists>s'. step rnd c s = Inr s'
                 \<and> (if c = Start then score (stats s') = 0
                     else score (stats s) \<le> score (stats s')))
           \<and> (\<forall>k. 1 \<le> k \<longrightarrow> score (stats s) \<le> score (stats (updateForClear k s))))"
proof -
  from run_inv [OF engine_inv_initial assms(1)]
  obtain s where s: "run cs (initialState rnd0 stored) = Inr s" "engine_inv s" by blast
  from s(2) have ok: "0 \<le> score (stats s)" "0 \<le> level (stats s)" "0 \<le> lines (stats s)"
    by (simp_all add: engine_inv_def state_ok_def)
  from step_inv [OF s(2) assms(2), of rnd]
  have "\<exists>s'. step rnd c s = Inr s'
          \<and> (if c = Start then score (stats s') = 0 else score (stats s) \<le> score (stats s'))"
    by blast
  moreover have "\<forall>k. 1 \<le> k \<longrightarrow> score (stats s) \<le> score (stats (updateForClear k s))"
    using updateForClear_stats_ok [OF _ ok] by blast
  moreover have "score (stats (initialState rnd0 stored)) = 0"
    by (simp add: initialState_def createInitialStats_def)
  ultimately show ?thesis using s(1) ok(1) by blast
qed

text \<open>A start, a hold and a hard drop: a piece is held, another is active, and the drop scores.\<close>

lemma run_start_hold:
  "run [(\<lambda>k. 0, Start), (\<lambda>k. 0, Hold)] (initialState (\<lambda>k. 0) 0)
     = Inr (render (holdPiece (\<lambda>k. 0) playing_state))"
  by (simp add: playing_state_def)

lemma run_start_hold_drop_score:
  "map_sum id (\<lambda>s. (score (stats s), hold s, active s))
     (run [(\<lambda>k. 0, Start), (\<lambda>k. 0, Hold), (\<lambda>k. 0, HardDrop)] (initialState (\<lambda>k. 0) 0))
   = Inr (108, Some TetJ, Some (spawned TetO))"
  by code_simp

theorem score_never_decreases_witness:
  "(\<exists>s. run [(\<lambda>k. 0, Start), (\<lambda>k. 0, Hold)] (initialState (\<lambda>k. 0) 0) = Inr s
        \<and> hold s = Some TetJ \<and> active s = Some (spawned TetL) \<and> score (stats s) = 0
        \<and> (\<exists>s'. step (\<lambda>k. 0) HardDrop s = Inr s' \<and> score (stats s) \<le> score (stats s')))
   \<and> map_sum id (\<lambda>s. (score (stats s), hold s, active s))
       (run [(\<lambda>k. 0, Start), (\<lambda>k. 0, Hold), (\<lambda>k. 0, HardDrop)] (initialState (\<lambda>k. 0) 0))
     = Inr (108, Some TetJ, Some (spawned TetO))"
proof -
  have h1: "\<forall>(rnd, c) \<in> set [(\<lambda>k. 0::real, Start), (\<lambda>k. 0, Hold)]. command_ok c" by simp
  have h2: "command_ok HardDrop" by simp
  from score_never_decreases [OF h1 h2, of "\<lambda>k. 0" 0 "\<lambda>k. 0"]
  obtain s s' where r: "run [(\<lambda>k. 0, Start), (\<lambda>k. 0, Hold)] (initialState (\<lambda>k. 0) 0) = Inr s"
    and st: "step (\<lambda>k. 0) HardDrop s = Inr s'" and le: "score (stats s) \<le> score (stats s')"
    by (auto simp del: run.simps step.simps)
  from r have s: "s = render (holdPiece (\<lambda>k. 0) playing_state)" unfolding run_start_hold by simp
  have "hold s = Some TetJ" "active s = Some (spawned TetL)"
    unfolding s using holdPiece_twice by (simp_all add: render_def)
  moreover have "score (stats s) = 0"
    unfolding s using holdPiece_ok [of playing_state "\<lambda>k. 0"]
    by (simp add: holdPiece_def active_playing_state status_playing_state hasHeld_playing_state
        Let_def stats_spawnPiece addMessage_def playing_state_def render_def startGame_def
        resetGame_def createInitialStats_def split: prod.splits)
  ultimately show ?thesis using r st le run_start_hold_drop_score by blast
qed

end
